theory Spec2Isabelle
  imports Main "HOL-Library.Word" "HOL-Library.Multiset"
begin

section \<open>The expression syntax tree of \<open>expr_ast.go\<close>\<close>

subsection \<open>Values, nodes and the heap\<close>

text \<open>
  An \<open>ExprNode\<close> interface value is either \<open>nil\<close> (\<open>None\<close>) or a pointer to one of the
  thirteen node structs (\<open>Some a\<close>, with \<open>a\<close> the address of the struct). The structs live in
  a heap that maps every address to the struct stored there; the dynamic type of the
  pointer is the constructor found at the address. Nodes refer to each other by address,
  in both directions: child fields point down, the \<open>parent\<close> field points up. Nothing in
  the types prevents a cycle or a shared child, exactly as in the Go code. A non-\<open>nil\<close>
  interface value always points to a struct (a \<open>nil\<close> pointer wrapped in an interface is
  not represented).

  The type \<open>Token\<close> is declared in another file of the package; the pointer \<open>*Token\<close> is
  the type parameter \<open>'tok\<close>. A \<open>float64\<close> is kept as its 64 bit pattern, Go's \<open>int\<close> as an
  integer (no arithmetic is done on either).
\<close>

type_synonym addr = nat
type_synonym ExprNode = "addr option"
type_synonym float64 = "64 word"

text \<open>\<open>type CompareOpNodeKind int\<close> and \<open>type LogicalOpNodeKind int\<close>.\<close>

type_synonym CompareOpNodeKind = int
type_synonym LogicalOpNodeKind = int

text \<open>
  The fields of every constructor are in the order of the struct declaration; the last
  field is always \<open>parent\<close>.
\<close>

datatype 'tok node =
    VariableNode string 'tok ExprNode
  | NullNode 'tok ExprNode
  | BoolNode bool 'tok ExprNode
  | IntNode int 'tok ExprNode
  | FloatNode float64 'tok ExprNode
  | StringNode string 'tok ExprNode
  | ObjectDerefNode ExprNode string ExprNode
  | ArrayDerefNode ExprNode ExprNode
  | IndexAccessNode ExprNode ExprNode ExprNode
  | NotOpNode ExprNode 'tok ExprNode
  | CompareOpNode CompareOpNodeKind ExprNode ExprNode ExprNode
  | LogicalOpNode LogicalOpNodeKind ExprNode ExprNode ExprNode
  | FuncCallNode string "ExprNode list" 'tok ExprNode

type_synonym 'tok heap = "addr \<Rightarrow> 'tok node"

text \<open>The only run-time failure of this file: a method call on a \<open>nil\<close> interface value.\<close>

datatype error = NilDereference

subsection \<open>Operator kinds\<close>

definition CompareOpNodeKindInvalid :: CompareOpNodeKind where
  "CompareOpNodeKindInvalid = 0"

definition CompareOpNodeKindLess :: CompareOpNodeKind where
  "CompareOpNodeKindLess = 1"

definition CompareOpNodeKindLessEq :: CompareOpNodeKind where
  "CompareOpNodeKindLessEq = 2"

definition CompareOpNodeKindGreater :: CompareOpNodeKind where
  "CompareOpNodeKindGreater = 3"

definition CompareOpNodeKindGreaterEq :: CompareOpNodeKind where
  "CompareOpNodeKindGreaterEq = 4"

definition CompareOpNodeKindEq :: CompareOpNodeKind where
  "CompareOpNodeKindEq = 5"

definition CompareOpNodeKindNotEq :: CompareOpNodeKind where
  "CompareOpNodeKindNotEq = 6"

definition IsEqualityOp :: "CompareOpNodeKind \<Rightarrow> bool" where
  "IsEqualityOp kind \<longleftrightarrow> kind = CompareOpNodeKindEq \<or> kind = CompareOpNodeKindNotEq"

definition CompareOpNodeKind_String :: "CompareOpNodeKind \<Rightarrow> string" where
  "CompareOpNodeKind_String kind =
     (if kind = CompareOpNodeKindLess then ''<''
      else if kind = CompareOpNodeKindLessEq then ''<=''
      else if kind = CompareOpNodeKindGreater then ''>''
      else if kind = CompareOpNodeKindGreaterEq then ''>=''
      else if kind = CompareOpNodeKindEq then ''==''
      else if kind = CompareOpNodeKindNotEq then ''!=''
      else '''')"

definition LogicalOpNodeKindInvalid :: LogicalOpNodeKind where
  "LogicalOpNodeKindInvalid = 0"

definition LogicalOpNodeKindAnd :: LogicalOpNodeKind where
  "LogicalOpNodeKindAnd = 1"

definition LogicalOpNodeKindOr :: LogicalOpNodeKind where
  "LogicalOpNodeKindOr = 2"

definition LogicalOpNodeKind_String :: "LogicalOpNodeKind \<Rightarrow> string" where
  "LogicalOpNodeKind_String k =
     (if k = LogicalOpNodeKindAnd then ''&&''
      else if k = LogicalOpNodeKindOr then ''||''
      else ''INVALID LOGICAL OPERATOR'')"

lemmas CompareOpNodeKind_defs =
  CompareOpNodeKindInvalid_def CompareOpNodeKindLess_def CompareOpNodeKindLessEq_def
  CompareOpNodeKindGreater_def CompareOpNodeKindGreaterEq_def CompareOpNodeKindEq_def
  CompareOpNodeKindNotEq_def

lemmas LogicalOpNodeKind_defs =
  LogicalOpNodeKindInvalid_def LogicalOpNodeKindAnd_def LogicalOpNodeKindOr_def

subsection \<open>The methods \<open>Parent\<close> and \<open>Token\<close>\<close>

text \<open>Every struct's \<open>Parent()\<close> returns its \<open>parent\<close> field.\<close>

fun Parent :: "'tok node \<Rightarrow> ExprNode" where
  "Parent (VariableNode name tok parent) = parent"
| "Parent (NullNode tok parent) = parent"
| "Parent (BoolNode v tok parent) = parent"
| "Parent (IntNode v tok parent) = parent"
| "Parent (FloatNode v tok parent) = parent"
| "Parent (StringNode v tok parent) = parent"
| "Parent (ObjectDerefNode receiver property parent) = parent"
| "Parent (ArrayDerefNode receiver parent) = parent"
| "Parent (IndexAccessNode operand index parent) = parent"
| "Parent (NotOpNode operand tok parent) = parent"
| "Parent (CompareOpNode kind left right parent) = parent"
| "Parent (LogicalOpNode kind left right parent) = parent"
| "Parent (FuncCallNode callee args tok parent) = parent"

text \<open>
  \<open>n.Token()\<close> through the interface: the method of the struct \<open>n\<close> points to runs. Five
  structs call \<open>Token()\<close> on a child, which on a cyclic heap never returns (the value
  \<open>None\<close>), and on a \<open>nil\<close> child panics.
\<close>

partial_function (option) Token :: "'tok heap \<Rightarrow> ExprNode \<Rightarrow> (error + 'tok) option" where
  "Token h n =
     (case n of
        None \<Rightarrow> Some (Inl NilDereference)
      | Some a \<Rightarrow>
          (case h a of
             VariableNode name tok parent \<Rightarrow> Some (Inr tok)
           | NullNode tok parent \<Rightarrow> Some (Inr tok)
           | BoolNode v tok parent \<Rightarrow> Some (Inr tok)
           | IntNode v tok parent \<Rightarrow> Some (Inr tok)
           | FloatNode v tok parent \<Rightarrow> Some (Inr tok)
           | StringNode v tok parent \<Rightarrow> Some (Inr tok)
           | ObjectDerefNode receiver property parent \<Rightarrow> Token h receiver
           | ArrayDerefNode receiver parent \<Rightarrow> Token h receiver
           | IndexAccessNode operand index parent \<Rightarrow> Token h operand
           | NotOpNode operand tok parent \<Rightarrow> Some (Inr tok)
           | CompareOpNode kind left right parent \<Rightarrow> Token h left
           | LogicalOpNode kind left right parent \<Rightarrow> Token h left
           | FuncCallNode callee args tok parent \<Rightarrow> Some (Inr tok)))"

subsection \<open>The walker\<close>

text \<open>
  The callback \<open>func(node, parent ExprNode, entering bool)\<close> returns nothing; what it does
  is a change of the state \<open>'s\<close> it closes over. It is taken to return, and to leave the
  nodes as they are.
\<close>

type_synonym 's VisitExprNodeFunc = "ExprNode \<Rightarrow> ExprNode \<Rightarrow> bool \<Rightarrow> 's \<Rightarrow> 's"

text \<open>\<open>for i := range xs { body(xs[i]) }\<close>, where the body may fail to return.\<close>

fun for_range :: "('a \<Rightarrow> 's \<Rightarrow> 's option) \<Rightarrow> 'a list \<Rightarrow> 's \<Rightarrow> 's option" where
  "for_range body [] s = Some s"
| "for_range body (x # xs) s = Option.bind (body x s) (for_range body xs)"

lemma for_range_mono [partial_function_mono]:
  assumes "\<And>x s. mono_option (\<lambda>F. body F x s)"
  shows "mono_option (\<lambda>F. for_range (body F) xs s)"
proof (induction xs arbitrary: s)
  case Nil
  show ?case by (simp add: option.const_mono)
next
  case (Cons x xs)
  show ?case
    unfolding for_range.simps
    by (rule bind_mono) (rule assms, rule Cons.IH)
qed

text \<open>
  The type switch of \<open>visitExprNode\<close>, with the recursive call as the parameter \<open>visit\<close>
  (applied to the child, the new parent \<open>n\<close> and the callback's state). A \<open>nil\<close> interface
  value and the six leaf structs match no case.
\<close>

definition visitChildren ::
  "(ExprNode \<Rightarrow> ExprNode \<Rightarrow> 's \<Rightarrow> 's option) \<Rightarrow> 'tok heap \<Rightarrow> ExprNode \<Rightarrow> 's \<Rightarrow> 's option" where
  "visitChildren visit h n s =
     (case n of
        None \<Rightarrow> Some s
      | Some a \<Rightarrow>
          (case h a of
             ObjectDerefNode receiver property parent \<Rightarrow>
               visit receiver n s
           | ArrayDerefNode receiver parent \<Rightarrow>
               visit receiver n s
           | IndexAccessNode operand index parent \<Rightarrow>
               Option.bind (visit index n s) (\<lambda>s. visit operand n s)
           | NotOpNode operand tok parent \<Rightarrow>
               visit operand n s
           | CompareOpNode kind left right parent \<Rightarrow>
               Option.bind (visit left n s) (\<lambda>s. visit right n s)
           | LogicalOpNode kind left right parent \<Rightarrow>
               Option.bind (visit left n s) (\<lambda>s. visit right n s)
           | FuncCallNode callee args tok parent \<Rightarrow>
               for_range (\<lambda>x s. visit x n s) args s
           | _ \<Rightarrow> Some s))"

lemma visitChildren_mono [partial_function_mono]:
  assumes "\<And>x q s. mono_option (\<lambda>F. visit F x q s)"
  shows "mono_option (\<lambda>F. visitChildren (visit F) h n s)"
proof (cases n)
  case None
  then show ?thesis by (simp add: visitChildren_def option.const_mono)
next
  case (Some a)
  then show ?thesis
    unfolding visitChildren_def
    by (cases "h a") (simp_all add: option.const_mono assms bind_mono for_range_mono)
qed

text \<open>
  \<open>visitExprNode(n, p, f)\<close>: the callback on entering, the type switch, the callback on
  leaving. On a heap with a cycle through child fields it does not return (\<open>None\<close>).
\<close>

partial_function (option) visitExprNode ::
  "'tok heap \<Rightarrow> 's VisitExprNodeFunc \<Rightarrow> ExprNode \<Rightarrow> ExprNode \<Rightarrow> 's \<Rightarrow> 's option" where
  "visitExprNode h f n p s =
     Option.bind (visitChildren (\<lambda>x q s. visitExprNode h f x q s) h n (f n p True s))
       (\<lambda>s. Some (f n p False s))"

definition VisitExprNode :: "'tok heap \<Rightarrow> ExprNode \<Rightarrow> 's VisitExprNodeFunc \<Rightarrow> 's \<Rightarrow> 's option" where
  "VisitExprNode h n f s = visitExprNode h f n None s"

subsection \<open>The ancestor search\<close>

text \<open>
  The predicate \<open>func(n ExprNode) (T, bool)\<close> is a closure too: it returns its pair and the
  new state. \<open>FindParent_loop\<close> is the \<open>for parent != nil\<close> loop with the two statements
  after it; on a cyclic parent chain without a match it does not return. \<open>zero\<close> is the
  zero value of \<open>T\<close>.
\<close>

type_synonym ('t, 's) predicate = "ExprNode \<Rightarrow> 's \<Rightarrow> ('t \<times> bool) \<times> 's"

partial_function (option) FindParent_loop ::
  "'tok heap \<Rightarrow> ('t, 's) predicate \<Rightarrow> 't \<Rightarrow> ExprNode \<Rightarrow> 's \<Rightarrow> (('t \<times> bool) \<times> 's) option" where
  "FindParent_loop h predicate zero parent s =
     (case parent of
        None \<Rightarrow> Some ((zero, False), s)
      | Some a \<Rightarrow>
          (case predicate parent s of
             ((t, ok), s') \<Rightarrow>
               if ok then Some ((t, True), s')
               else FindParent_loop h predicate zero (Parent (h a)) s'))"

definition FindParent ::
  "'tok heap \<Rightarrow> ExprNode \<Rightarrow> ('t, 's) predicate \<Rightarrow> 't \<Rightarrow> 's \<Rightarrow> (error + ('t \<times> bool) \<times> 's) option" where
  "FindParent h n predicate zero s =
     (case n of
        None \<Rightarrow> Some (Inl NilDereference)
      | Some a \<Rightarrow> map_option Inr (FindParent_loop h predicate zero (Parent (h a)) s))"

section \<open>Trees in the heap and what a traversal is observed to do\<close>

text \<open>
  The claims are about a finite tree built by the parser. \<open>Tree a ts\<close> is the shape of
  such a tree: the node at address \<open>a\<close> and the trees below its child fields.
\<close>

datatype tree = Tree addr "tree list"

fun root_of :: "tree \<Rightarrow> addr" where
  "root_of (Tree a ts) = a"

fun kids :: "tree \<Rightarrow> tree list" where
  "kids (Tree a ts) = ts"

fun nodes :: "tree \<Rightarrow> addr list" where
  "nodes (Tree a ts) = a # concat (map nodes ts)"

fun subtrees :: "tree \<Rightarrow> tree list" where
  "subtrees (Tree a ts) = Tree a ts # concat (map subtrees ts)"

text \<open>
  The child fields of a struct, in the order of their declaration: \<open>Receiver\<close>; \<open>Operand\<close>,
  \<open>Index\<close>; \<open>Operand\<close>; \<open>Left\<close>, \<open>Right\<close>; the elements of \<open>Args\<close>.
\<close>

fun children :: "'tok node \<Rightarrow> ExprNode list" where
  "children (ObjectDerefNode receiver property parent) = [receiver]"
| "children (ArrayDerefNode receiver parent) = [receiver]"
| "children (IndexAccessNode operand index parent) = [operand, index]"
| "children (NotOpNode operand tok parent) = [operand]"
| "children (CompareOpNode kind left right parent) = [left, right]"
| "children (LogicalOpNode kind left right parent) = [left, right]"
| "children (FuncCallNode callee args tok parent) = args"
| "children (VariableNode name tok parent) = []"
| "children (NullNode tok parent) = []"
| "children (BoolNode v tok parent) = []"
| "children (IntNode v tok parent) = []"
| "children (FloatNode v tok parent) = []"
| "children (StringNode v tok parent) = []"

text \<open>
  \<open>is_tree h n T\<close>: the interface value \<open>n\<close> points to the root of \<open>T\<close>, and below every node
  of \<open>T\<close> the heap has, child field by child field, the trees \<open>T\<close> has there; no child field
  is \<open>nil\<close>. The heap holds a finite acyclic structure at \<open>n\<close> exactly when there is such a
  \<open>T\<close>; it is a tree (no node owned twice) when moreover \<open>distinct (nodes T)\<close>. The \<open>parent\<close>
  fields play no part in it.
\<close>

fun is_tree :: "'tok heap \<Rightarrow> ExprNode \<Rightarrow> tree \<Rightarrow> bool"
  and are_trees :: "'tok heap \<Rightarrow> ExprNode list \<Rightarrow> tree list \<Rightarrow> bool" where
  "is_tree h n (Tree a ts) \<longleftrightarrow> n = Some a \<and> are_trees h (children (h a)) ts"
| "are_trees h [] [] \<longleftrightarrow> True"
| "are_trees h (n # ns) (t # ts) \<longleftrightarrow> is_tree h n t \<and> are_trees h ns ts"
| "are_trees h [] (t # ts) \<longleftrightarrow> False"
| "are_trees h (n # ns) [] \<longleftrightarrow> False"

text \<open>
  One invocation of the callback is the triple of its arguments. \<open>record_call\<close> is the
  callback that appends its arguments to a list, so that visiting with it from the empty
  list returns the invocations in their order; \<open>replay f\<close> runs any callback \<open>f\<close> over such a
  list.
\<close>

type_synonym event = "ExprNode \<times> ExprNode \<times> bool"

definition record_call :: "event list VisitExprNodeFunc" where
  "record_call n p entering evs = evs @ [(n, p, entering)]"

definition replay :: "'s VisitExprNodeFunc \<Rightarrow> event list \<Rightarrow> 's \<Rightarrow> 's" where
  "replay f evs s = fold (\<lambda>(n, p, entering). f n p entering) evs s"

definition trace :: "'tok heap \<Rightarrow> ExprNode \<Rightarrow> ExprNode \<Rightarrow> event list option" where
  "trace h n p = visitExprNode h record_call n p []"

definition node_of :: "event \<Rightarrow> ExprNode" where
  "node_of ev = fst ev"

definition entered :: "event list \<Rightarrow> ExprNode list" where
  "entered evs = map node_of (filter (\<lambda>(n, p, entering). entering) evs)"

definition exited :: "event list \<Rightarrow> ExprNode list" where
  "exited evs = map node_of (filter (\<lambda>(n, p, entering). \<not> entering) evs)"

text \<open>
  The invocations expected of a visit of the tree \<open>T\<close> with parent argument \<open>p\<close>; the trees
  below an \<open>IndexAccessNode\<close> are taken in reverse.
\<close>

fun visit_order :: "'tok node \<Rightarrow> 'a list \<Rightarrow> 'a list" where
  "visit_order (IndexAccessNode operand index parent) ts = rev ts"
| "visit_order nd ts = ts"

lemma set_visit_order [simp]: "set (visit_order nd ts) = set ts"
  by (cases nd) simp_all

fun events :: "'tok heap \<Rightarrow> ExprNode \<Rightarrow> tree \<Rightarrow> event list" where
  "events h p (Tree a ts) =
     (Some a, p, True) # concat (map (events h (Some a)) (visit_order (h a) ts))
       @ [(Some a, p, False)]"

text \<open>
  \<open>parent_chain h n as\<close>: following \<open>Parent()\<close> from the interface value \<open>n\<close> passes the
  addresses \<open>as\<close>, in this order, and then reaches \<open>nil\<close>.
\<close>

fun parent_chain :: "'tok heap \<Rightarrow> ExprNode \<Rightarrow> addr list \<Rightarrow> bool" where
  "parent_chain h n [] \<longleftrightarrow> n = None"
| "parent_chain h n (a # as) \<longleftrightarrow> n = Some a \<and> parent_chain h (Parent (h a)) as"

text \<open>
  A predicate without effects of its own, made to append every node it is applied to to
  a list.
\<close>

definition logged :: "(ExprNode \<Rightarrow> 't \<times> bool) \<Rightarrow> ('t, ExprNode list) predicate" where
  "logged pred n log = (pred n, log @ [n])"

text \<open>
  The child a struct's \<open>Token()\<close> calls \<open>Token()\<close> on, if it does, and the token it returns
  from its own field otherwise.
\<close>

fun delegate :: "'tok node \<Rightarrow> ExprNode option" where
  "delegate (ObjectDerefNode receiver property parent) = Some receiver"
| "delegate (ArrayDerefNode receiver parent) = Some receiver"
| "delegate (IndexAccessNode operand index parent) = Some operand"
| "delegate (CompareOpNode kind left right parent) = Some left"
| "delegate (LogicalOpNode kind left right parent) = Some left"
| "delegate nd = None"

fun own_token :: "'tok node \<Rightarrow> 'tok option" where
  "own_token (VariableNode name tok parent) = Some tok"
| "own_token (NullNode tok parent) = Some tok"
| "own_token (BoolNode v tok parent) = Some tok"
| "own_token (IntNode v tok parent) = Some tok"
| "own_token (FloatNode v tok parent) = Some tok"
| "own_token (StringNode v tok parent) = Some tok"
| "own_token (NotOpNode operand tok parent) = Some tok"
| "own_token (FuncCallNode callee args tok parent) = Some tok"
| "own_token nd = None"

text \<open>
  \<open>delegation h as\<close>: each address of \<open>as\<close> but the last holds a struct whose \<open>Token()\<close>
  calls \<open>Token()\<close> on the next address.
\<close>

fun delegation :: "'tok heap \<Rightarrow> addr list \<Rightarrow> bool" where
  "delegation h [] \<longleftrightarrow> True"
| "delegation h [a] \<longleftrightarrow> True"
| "delegation h (a # b # as) \<longleftrightarrow> delegate (h a) = Some (Some b) \<and> delegation h (b # as)"

text \<open>The same struct with another value in its \<open>parent\<close> field.\<close>

fun set_parent :: "ExprNode \<Rightarrow> 'tok node \<Rightarrow> 'tok node" where
  "set_parent q (VariableNode name tok parent) = VariableNode name tok q"
| "set_parent q (NullNode tok parent) = NullNode tok q"
| "set_parent q (BoolNode v tok parent) = BoolNode v tok q"
| "set_parent q (IntNode v tok parent) = IntNode v tok q"
| "set_parent q (FloatNode v tok parent) = FloatNode v tok q"
| "set_parent q (StringNode v tok parent) = StringNode v tok q"
| "set_parent q (ObjectDerefNode receiver property parent) = ObjectDerefNode receiver property q"
| "set_parent q (ArrayDerefNode receiver parent) = ArrayDerefNode receiver q"
| "set_parent q (IndexAccessNode operand index parent) = IndexAccessNode operand index q"
| "set_parent q (NotOpNode operand tok parent) = NotOpNode operand tok q"
| "set_parent q (CompareOpNode kind left right parent) = CompareOpNode kind left right q"
| "set_parent q (LogicalOpNode kind left right parent) = LogicalOpNode kind left right q"
| "set_parent q (FuncCallNode callee args tok parent) = FuncCallNode callee args tok q"

text \<open>
  The tree of \<open>foo.bar[baz.qux]\<close>, with every \<open>parent\<close> field set as the parser sets it. The
  tokens are the token texts.
\<close>

definition example_heap :: "string heap" where
  "example_heap =
     (\<lambda>a. NullNode ''null'' None)
       (0 := IndexAccessNode (Some 1) (Some 3) None,
        1 := ObjectDerefNode (Some 2) ''bar'' (Some 0),
        2 := VariableNode ''foo'' ''foo'' (Some 1),
        3 := ObjectDerefNode (Some 4) ''qux'' (Some 0),
        4 := VariableNode ''baz'' ''baz'' (Some 3))"

definition example_tree :: tree where
  "example_tree = Tree 0 [Tree 1 [Tree 2 []], Tree 3 [Tree 4 []]]"

text \<open>
  The tree of \<open>!contains(foo.*, 'x') && a == 1\<close>, for the other kinds of nodes.
\<close>

definition example_heap2 :: "string heap" where
  "example_heap2 =
     (\<lambda>a. NullNode ''null'' None)
       (0 := LogicalOpNode LogicalOpNodeKindAnd (Some 1) (Some 6) None,
        1 := NotOpNode (Some 2) ''!'' (Some 0),
        2 := FuncCallNode ''contains'' [Some 3, Some 5] ''contains'' (Some 1),
        3 := ArrayDerefNode (Some 4) (Some 2),
        4 := VariableNode ''foo'' ''foo'' (Some 3),
        5 := StringNode ''x'' ''x'' (Some 2),
        6 := CompareOpNode CompareOpNodeKindEq (Some 7) (Some 8) (Some 0),
        7 := VariableNode ''a'' ''a'' (Some 6),
        8 := IntNode 1 ''1'' (Some 6))"

section \<open>A traversal of a tree makes the expected invocations\<close>

lemma are_trees_iff: "are_trees h ns ts \<longleftrightarrow> list_all2 (is_tree h) ns ts"
proof (induction ns arbitrary: ts)
  case Nil
  then show ?case by (cases ts) simp_all
next
  case (Cons n ns)
  then show ?case by (cases ts) simp_all
qed

lemma is_tree_iff:
  "is_tree h n (Tree a ts) \<longleftrightarrow> n = Some a \<and> list_all2 (is_tree h) (children (h a)) ts"
  by (simp add: are_trees_iff)

lemma replay_Nil [simp]: "replay f [] s = s"
  by (simp add: replay_def)

lemma replay_Cons [simp]: "replay f ((n, p, e) # evs) s = replay f evs (f n p e s)"
  by (simp add: replay_def)

lemma replay_append [simp]: "replay f (xs @ ys) s = replay f ys (replay f xs s)"
  by (simp add: replay_def)

lemma replay_record_call: "replay record_call evs s = s @ evs"
  by (induction evs arbitrary: s) (auto simp: record_call_def)

lemma for_range_events:
  assumes "list_all2 (is_tree h) ns ts"
    and "\<And>t n s. t \<in> set ts \<Longrightarrow> is_tree h n t \<Longrightarrow> visit n s = Some (replay f (ev t) s)"
  shows "for_range visit ns s = Some (replay f (concat (map ev ts)) s)"
  using assms
proof (induction ns ts arbitrary: s rule: list_all2_induct)
  case Nil
  then show ?case by simp
next
  case (Cons n ns t ts)
  have "visit n s = Some (replay f (ev t) s)"
    using Cons.hyps(1) by (intro Cons.prems) simp_all
  moreover have "for_range visit ns s' = Some (replay f (concat (map ev ts)) s')" for s'
    by (rule Cons.IH) (simp add: Cons.prems)
  ultimately show ?case by simp
qed

lemma visitChildren_events:
  assumes kids: "list_all2 (is_tree h) (children (h a)) ts"
    and IH: "\<And>t n s. t \<in> set ts \<Longrightarrow> is_tree h n t \<Longrightarrow>
               visit n (Some a) s = Some (replay f (events h (Some a) t) s)"
  shows "visitChildren visit h (Some a) s =
           Some (replay f (concat (map (events h (Some a)) (visit_order (h a) ts))) s)"
proof -
  have one: "visitChildren visit h (Some a) s = visit c (Some a) s \<Longrightarrow> children (h a) = [c] \<Longrightarrow>
      visit_order (h a) ts = ts \<Longrightarrow> ?thesis" for c
  proof -
    assume *: "visitChildren visit h (Some a) s = visit c (Some a) s" "children (h a) = [c]"
      "visit_order (h a) ts = ts"
    with kids obtain t where t: "ts = [t]" "is_tree h c t"
      by (auto simp: list_all2_Cons1)
    then have "visit c (Some a) s = Some (replay f (events h (Some a) t) s)"
      by (intro IH) simp_all
    with * t show ?thesis by simp
  qed
  have two: "visitChildren visit h (Some a) s =
        Option.bind (visit c (Some a) s) (\<lambda>s. visit d (Some a) s) \<Longrightarrow>
      list_all2 (is_tree h) [c, d] us \<Longrightarrow> visit_order (h a) ts = us \<Longrightarrow> ?thesis" for c d us
  proof -
    assume *: "visitChildren visit h (Some a) s =
        Option.bind (visit c (Some a) s) (\<lambda>s. visit d (Some a) s)"
      "list_all2 (is_tree h) [c, d] us" "visit_order (h a) ts = us"
    then obtain t u where t: "us = [t, u]" "is_tree h c t" "is_tree h d u"
      by (auto simp: list_all2_Cons1)
    have mem: "t \<in> set ts" "u \<in> set ts"
      using t(1) *(3) set_visit_order [of "h a" ts] by auto
    have "visit c (Some a) s = Some (replay f (events h (Some a) t) s)"
      and "visit d (Some a) s' = Some (replay f (events h (Some a) u) s')" for s'
      using mem t by (auto intro: IH)
    with * t show ?thesis by simp
  qed
  show ?thesis
  proof (cases "h a")
    case (FuncCallNode callee args tok parent)
    with kids have "list_all2 (is_tree h) args ts" by simp
    then have "for_range (\<lambda>x s. visit x (Some a) s) args s
        = Some (replay f (concat (map (events h (Some a)) ts)) s)"
      by (rule for_range_events) (rule IH)
    with FuncCallNode show ?thesis by (simp add: visitChildren_def)
  next
    case (IndexAccessNode operand index parent)
    with kids have "list_all2 (is_tree h) [index, operand] (rev ts)"
      by (auto simp: list_all2_Cons1)
    with IndexAccessNode show ?thesis
      by (intro two [of index operand "rev ts"]) (simp_all add: visitChildren_def)
  next
    case (CompareOpNode kind left right parent)
    with kids show ?thesis
      by (intro two [of left right ts]) (simp_all add: visitChildren_def)
  next
    case (LogicalOpNode kind left right parent)
    with kids show ?thesis
      by (intro two [of left right ts]) (simp_all add: visitChildren_def)
  next
    case (ObjectDerefNode receiver property parent)
    then show ?thesis
      by (intro one [of receiver]) (simp_all add: visitChildren_def)
  next
    case (ArrayDerefNode receiver parent)
    then show ?thesis
      by (intro one [of receiver]) (simp_all add: visitChildren_def)
  next
    case (NotOpNode operand tok parent)
    then show ?thesis
      by (intro one [of operand]) (simp_all add: visitChildren_def)
  qed (use kids in \<open>simp_all add: visitChildren_def\<close>)
qed

lemma visitExprNode_events:
  "is_tree h n T \<Longrightarrow> visitExprNode h f n p s = Some (replay f (events h p T) s)"
proof (induction T arbitrary: n p s)
  case (Tree a ts)
  from Tree.prems have n: "n = Some a"
    and kids: "list_all2 (is_tree h) (children (h a)) ts"
    by (simp_all add: are_trees_iff)
  have "visitChildren (visitExprNode h f) h (Some a) s' =
           Some (replay f (concat (map (events h (Some a)) (visit_order (h a) ts))) s')" for s'
    using kids by (rule visitChildren_events) (rule Tree.IH)
  then show ?case
    by (subst visitExprNode.simps) (simp add: n)
qed

lemma trace_events: "is_tree h n T \<Longrightarrow> trace h n p = Some (events h p T)"
  by (simp add: trace_def visitExprNode_events replay_record_call)

section \<open>Counting and locating the invocations\<close>

lemma mset_concat_visit_order:
  "mset (concat (map g (visit_order nd ts))) = mset (concat (map g ts))"
proof (cases nd)
  case (IndexAccessNode operand index parent)
  have "mset (concat (map g (rev ts))) = mset (concat (map g ts))"
    by (simp add: mset_concat rev_map [symmetric] del: rev_map)
  with IndexAccessNode show ?thesis by simp
qed simp_all

lemma entered_simps [simp]:
  "entered [] = []"
  "entered ((n, p, e) # evs) = (if e then n # entered evs else entered evs)"
  "entered (xs @ ys) = entered xs @ entered ys"
  by (simp_all add: entered_def node_of_def)

lemma entered_concat [simp]: "entered (concat xss) = concat (map entered xss)"
  by (induction xss) simp_all

lemma exited_simps [simp]:
  "exited [] = []"
  "exited ((n, p, e) # evs) = (if e then exited evs else n # exited evs)"
  "exited (xs @ ys) = exited xs @ exited ys"
  by (simp_all add: exited_def node_of_def)

lemma exited_concat [simp]: "exited (concat xss) = concat (map exited xss)"
  by (induction xss) simp_all

lemma mset_concat_cong:
  "(\<And>t. t \<in> set ts \<Longrightarrow> mset (g t) = mset (g' t)) \<Longrightarrow>
    mset (concat (map g ts)) = mset (concat (map g' ts))"
  by (induction ts) simp_all

lemma mset_entered_events: "mset (entered (events h p T)) = mset (map Some (nodes T))"
proof (induction T arbitrary: p)
  case (Tree a ts)
  have "mset (concat (map (\<lambda>t. entered (events h (Some a) t)) (visit_order (h a) ts)))
      = mset (concat (map (\<lambda>t. entered (events h (Some a) t)) ts))"
    by (rule mset_concat_visit_order)
  also have "\<dots> = mset (concat (map (\<lambda>t. map Some (nodes t)) ts))"
    by (rule mset_concat_cong) (rule Tree.IH)
  finally show ?case
    by (simp add: comp_def map_concat)
qed

lemma mset_exited_events: "mset (exited (events h p T)) = mset (map Some (nodes T))"
proof (induction T arbitrary: p)
  case (Tree a ts)
  have "mset (concat (map (\<lambda>t. exited (events h (Some a) t)) (visit_order (h a) ts)))
      = mset (concat (map (\<lambda>t. exited (events h (Some a) t)) ts))"
    by (rule mset_concat_visit_order)
  also have "\<dots> = mset (concat (map (\<lambda>t. map Some (nodes t)) ts))"
    by (rule mset_concat_cong) (rule Tree.IH)
  finally show ?case
    by (simp add: comp_def map_concat)
qed

lemma mset_node_of_split:
  "mset (map node_of evs) = mset (entered evs) + mset (exited evs)"
  by (induction evs) (auto simp: node_of_def)

lemma mset_node_of_events:
  "mset (map node_of (events h p T)) = mset (map Some (nodes T)) + mset (map Some (nodes T))"
  unfolding mset_node_of_split mset_entered_events mset_exited_events ..

lemma length_events: "length (events h p T) = 2 * length (nodes T)"
proof -
  have "size (mset (map node_of (events h p T))) = 2 * length (nodes T)"
    unfolding mset_node_of_events by simp
  then show ?thesis by simp
qed

lemma set_node_of_events: "node_of ` set (events h p T) = Some ` set (nodes T)"
proof -
  have "set_mset (mset (map node_of (events h p T))) = Some ` set (nodes T)"
    unfolding mset_node_of_events by simp
  then show ?thesis by simp
qed

lemma subtrees_self [simp]: "T \<in> set (subtrees T)"
  by (cases T) simp

lemma subtrees_cases:
  assumes "S \<in> set (subtrees (Tree a ts))"
  obtains "S = Tree a ts" | t where "t \<in> set ts" "S \<in> set (subtrees t)"
  using assms by auto

lemma events_subtree:
  "S \<in> set (subtrees T) \<Longrightarrow>
    \<exists>xs zs q. events h p T = xs @ events h q S @ zs \<and>
      ((S = T \<and> q = p \<and> xs = [] \<and> zs = []) \<or>
       (\<exists>C \<in> set (subtrees T). S \<in> set (kids C) \<and> q = Some (root_of C)))"
proof (induction T arbitrary: p)
  case (Tree a ts)
  from Tree.prems show ?case
  proof (cases rule: subtrees_cases)
    case 1
    then have "events h p (Tree a ts) = [] @ events h p S @ []" by simp
    with 1 show ?thesis by blast
  next
    case (2 t)
    from Tree.IH [OF 2] obtain xs zs q
      where ev: "events h (Some a) t = xs @ events h q S @ zs"
        and pos: "(S = t \<and> q = Some a \<and> xs = [] \<and> zs = []) \<or>
          (\<exists>C \<in> set (subtrees t). S \<in> set (kids C) \<and> q = Some (root_of C))"
      by blast
    from 2(1) have "t \<in> set (visit_order (h a) ts)" by simp
    then obtain us vs where split: "visit_order (h a) ts = us @ t # vs"
      using split_list by fastforce
    have "events h p (Tree a ts) =
        ((Some a, p, True) # concat (map (events h (Some a)) us) @ xs) @ events h q S
          @ (zs @ concat (map (events h (Some a)) vs) @ [(Some a, p, False)])"
      by (simp add: split ev)
    moreover have "\<exists>C \<in> set (subtrees (Tree a ts)). S \<in> set (kids C) \<and> q = Some (root_of C)"
      using pos
    proof
      assume "S = t \<and> q = Some a \<and> xs = [] \<and> zs = []"
      with 2(1) have "S \<in> set (kids (Tree a ts)) \<and> q = Some (root_of (Tree a ts))" by simp
      then show ?thesis using subtrees_self by blast
    next
      assume "\<exists>C \<in> set (subtrees t). S \<in> set (kids C) \<and> q = Some (root_of C)"
      with 2(1) show ?thesis by auto
    qed
    ultimately show ?thesis by blast
  qed
qed

lemma events_outside:
  assumes dist: "distinct (nodes T)"
    and ev: "events h p T = xs @ events h q S @ zs"
    and a: "a \<in> set (nodes S)"
  shows "Some a \<notin> node_of ` (set xs \<union> set zs)"
proof -
  let ?c = "\<lambda>evs. count (mset (map node_of evs)) (Some a)"
  have "inj (Some :: addr \<Rightarrow> ExprNode)" by simp
  then have "distinct (map Some (nodes T))" using dist by (simp add: distinct_map)
  then have "count (mset (map Some (nodes T))) (Some a) \<le> 1"
    by (simp add: distinct_count_atmost_1)
  then have "?c (events h p T) \<le> 2"
    unfolding mset_node_of_events by simp
  moreover have "count (mset (map Some (nodes S))) (Some a) \<ge> 1"
    using a by (simp add: count_greater_eq_one_iff)
  then have "?c (events h q S) \<ge> 2"
    unfolding mset_node_of_events count_union by linarith
  moreover have "?c (events h p T) = ?c xs + ?c (events h q S) + ?c zs"
    by (simp add: ev)
  ultimately have "?c xs = 0" "?c zs = 0" by linarith+
  then show ?thesis
    by (auto simp: count_eq_zero_iff)
qed

lemma is_tree_subtree:
  "is_tree h n T \<Longrightarrow> S \<in> set (subtrees T) \<Longrightarrow> is_tree h (Some (root_of S)) S"
proof (induction T arbitrary: n)
  case (Tree a ts)
  from Tree.prems(2) show ?case
  proof (cases rule: subtrees_cases)
    case 1
    with Tree.prems(1) show ?thesis by simp
  next
    case (2 t)
    from Tree.prems(1) have "list_all2 (is_tree h) (children (h a)) ts"
      by (simp add: are_trees_iff)
    with 2(1) obtain c where "is_tree h c t"
      by (auto simp: list_all2_conv_all_nth in_set_conv_nth)
    then show ?thesis by (rule Tree.IH [OF 2(1) _ 2(2)])
  qed
qed

lemma set_nodes_subtrees: "set (nodes T) = root_of ` set (subtrees T)"
  by (induction T) auto

lemma is_tree_kids:
  "is_tree h n T \<Longrightarrow> children (h (root_of T)) = map (\<lambda>t. Some (root_of t)) (kids T)"
proof (cases T)
  case (Tree a ts)
  assume "is_tree h n T"
  with Tree have "list_all2 (is_tree h) (children (h a)) ts"
    by (simp add: are_trees_iff)
  then have "children (h a) = map (\<lambda>t. Some (root_of t)) ts"
  proof (induction rule: list_all2_induct)
    case (Cons c cs t ts)
    then show ?case by (cases t) simp
  qed simp
  with Tree show ?thesis by simp
qed

lemma mset_nodes_subtree: "S \<in> set (subtrees T) \<Longrightarrow> mset (nodes S) \<subseteq># mset (nodes T)"
proof (induction T)
  case (Tree a ts)
  from Tree.prems show ?case
  proof (cases rule: subtrees_cases)
    case 1
    then show ?thesis by simp
  next
    case (2 t)
    then have "mset (nodes S) \<subseteq># mset (nodes t)" by (rule Tree.IH)
    moreover from 2(1) obtain us vs where "ts = us @ t # vs"
      by (auto dest: split_list)
    then have "mset (nodes t) \<subseteq># mset (nodes (Tree a ts))" by simp
    ultimately show ?thesis by (rule subset_mset.order_trans)
  qed
qed

lemma distinct_nodes_subtree:
  "distinct (nodes T) \<Longrightarrow> S \<in> set (subtrees T) \<Longrightarrow> distinct (nodes S)"
proof -
  assume dist: "distinct (nodes T)" and S: "S \<in> set (subtrees T)"
  have "count (mset (nodes S)) x = (if x \<in> set (nodes S) then 1 else 0)" for x
  proof -
    have "count (mset (nodes S)) x \<le> count (mset (nodes T)) x"
      by (rule mset_subset_eq_count [OF mset_nodes_subtree [OF S]])
    also have "\<dots> \<le> 1"
      using dist by (simp add: distinct_count_atmost_1)
    finally have "count (mset (nodes S)) x \<le> 1" .
    moreover have "x \<in> set (nodes S) \<Longrightarrow> count (mset (nodes S)) x \<ge> 1"
      by (simp add: count_greater_eq_one_iff)
    moreover have "x \<notin> set (nodes S) \<Longrightarrow> count (mset (nodes S)) x = 0"
      by (simp add: count_eq_zero_iff)
    ultimately show ?thesis
      by (cases "x \<in> set (nodes S)") (auto simp: le_Suc_eq count_eq_zero_iff)
  qed
  then show ?thesis by (simp add: distinct_count_atmost_1)
qed

lemma VisitExprNode_events:
  "is_tree h n T \<Longrightarrow> VisitExprNode h n f s = Some (replay f (events h None T) s)"
  by (simp add: VisitExprNode_def visitExprNode_events)

lemma VisitExprNode_record:
  "is_tree h n T \<Longrightarrow> VisitExprNode h n record_call [] = Some (events h None T)"
  by (simp add: VisitExprNode_events replay_record_call)

lemma set_node_of_kids_events:
  "node_of ` set (concat (map (events h q) (visit_order nd ts))) = Some ` set (concat (map nodes ts))"
proof -
  have "node_of ` set (concat (map (events h q) (visit_order nd ts)))
      = (\<Union>t \<in> set ts. node_of ` set (events h q t))"
    by auto
  also have "\<dots> = (\<Union>t \<in> set ts. Some ` set (nodes t))"
    by (simp add: set_node_of_events)
  also have "\<dots> = Some ` set (concat (map nodes ts))"
    by auto
  finally show ?thesis .
qed

lemma events_bracket:
  assumes dist: "distinct (nodes T)" and S: "S \<in> set (subtrees T)"
  shows "\<exists>xs mid zs q.
      events h p T = xs @ (Some (root_of S), q, True) # mid @ (Some (root_of S), q, False) # zs
    \<and> node_of ` set mid = Some ` set (concat (map nodes (kids S)))
    \<and> Some (root_of S) \<notin> node_of ` (set xs \<union> set mid \<union> set zs)
    \<and> node_of ` (set xs \<union> set zs) \<inter> Some ` set (nodes S) = {}
    \<and> ((S = T \<and> q = p \<and> xs = [] \<and> zs = []) \<or>
        (\<exists>C \<in> set (subtrees T). S \<in> set (kids C) \<and> q = Some (root_of C)))"
proof -
  obtain a ts where Seq: "S = Tree a ts" by (cases S)
  from events_subtree [OF S, of h p] obtain xs zs q
    where ev: "events h p T = xs @ events h q S @ zs"
      and pos: "(S = T \<and> q = p \<and> xs = [] \<and> zs = []) \<or>
        (\<exists>C \<in> set (subtrees T). S \<in> set (kids C) \<and> q = Some (root_of C))"
    by blast
  define mid where "mid = concat (map (events h (Some a)) (visit_order (h a) ts))"
  have mid: "node_of ` set mid = Some ` set (concat (map nodes (kids S)))"
    unfolding mid_def Seq kids.simps by (rule set_node_of_kids_events)
  have out: "Some b \<notin> node_of ` (set xs \<union> set zs)" if "b \<in> set (nodes S)" for b
    using dist ev that by (rule events_outside)
  have "distinct (nodes S)" using dist S by (rule distinct_nodes_subtree)
  then have "a \<notin> set (concat (map nodes ts))" by (simp add: Seq)
  then have "Some a \<notin> node_of ` set mid" by (auto simp: mid Seq)
  moreover have "Some a \<notin> node_of ` (set xs \<union> set zs)"
    by (rule out) (simp add: Seq)
  ultimately have a: "Some (root_of S) \<notin> node_of ` (set xs \<union> set mid \<union> set zs)"
    by (auto simp: Seq)
  have disj: "node_of ` (set xs \<union> set zs) \<inter> Some ` set (nodes S) = {}"
  proof (rule ccontr)
    assume "node_of ` (set xs \<union> set zs) \<inter> Some ` set (nodes S) \<noteq> {}"
    then obtain x where "x \<in> node_of ` (set xs \<union> set zs)" "x \<in> Some ` set (nodes S)"
      by blast
    then obtain b where "b \<in> set (nodes S)" "Some b \<in> node_of ` (set xs \<union> set zs)"
      by (elim imageE) simp
    with out show False by blast
  qed
  have ev': "events h p T =
      xs @ (Some (root_of S), q, True) # mid @ (Some (root_of S), q, False) # zs"
    by (simp add: ev Seq mid_def)
  show ?thesis
    by (rule exI [of _ xs], rule exI [of _ mid], rule exI [of _ zs], rule exI [of _ q])
      (intro conjI ev' mid a disj pos)
qed

lemma children_set_parent [simp]: "children (set_parent q nd) = children nd"
  by (cases nd) simp_all

lemma visit_order_set_parent [simp]: "visit_order (set_parent q nd) ts = visit_order nd ts"
  by (cases nd) simp_all

lemma is_tree_set_parent:
  "is_tree (\<lambda>a. set_parent (g a) (h a)) n T \<longleftrightarrow> is_tree h n T"
proof (induction T arbitrary: n)
  case (Tree a ts)
  have "list_all2 (is_tree (\<lambda>a. set_parent (g a) (h a))) (children (h a)) ts
      = list_all2 (is_tree h) (children (h a)) ts"
    by (rule list.rel_cong) (simp_all add: Tree.IH)
  then show ?case by (simp add: are_trees_iff)
qed

lemma events_set_parent:
  "events (\<lambda>a. set_parent (g a) (h a)) p T = events h p T"
proof (induction T arbitrary: p)
  case (Tree a ts)
  have *: "map (events (\<lambda>a. set_parent (g a) (h a)) (Some a)) (visit_order (h a) ts)
      = map (events h (Some a)) (visit_order (h a) ts)"
    by (rule map_cong) (simp_all add: Tree.IH)
  show ?case
    unfolding events.simps visit_order_set_parent * ..
qed

lemma kids_subtrees:
  "S \<in> set (subtrees T) \<Longrightarrow> t \<in> set (kids S) \<Longrightarrow> t \<in> set (subtrees T)"
proof (induction T)
  case (Tree a ts)
  from Tree.prems(1) show ?case
  proof (cases rule: subtrees_cases)
    case 1
    with Tree.prems(2) have "t \<in> set ts" by simp
    then have "\<exists>x \<in> set ts. t \<in> set (subtrees x)"
      by (intro bexI [of _ t]) simp_all
    then show ?thesis by simp
  next
    case (2 t')
    then have "t \<in> set (subtrees t')" using Tree.prems(2) by (intro Tree.IH)
    with 2(1) show ?thesis by auto
  qed
qed

lemma is_tree_root: "is_tree h (Some r) T \<Longrightarrow> root_of T = r"
  by (cases T) simp

lemma children_closed:
  assumes tree: "is_tree h n T" and a: "a \<in> set (nodes T)"
  shows "set (children (h a)) \<subseteq> Some ` set (nodes T)"
proof -
  from a obtain S where S: "S \<in> set (subtrees T)" "root_of S = a"
    by (auto simp: set_nodes_subtrees)
  from tree S(1) have "is_tree h (Some (root_of S)) S" by (rule is_tree_subtree)
  then have "children (h a) = map (\<lambda>t. Some (root_of t)) (kids S)"
    using is_tree_kids [of h "Some (root_of S)" S] S(2) by simp
  moreover have "root_of t \<in> set (nodes T)" if "t \<in> set (kids S)" for t
    using kids_subtrees [OF S(1) that] by (auto simp: set_nodes_subtrees)
  ultimately show ?thesis by auto
qed

lemma events_ends:
  "\<exists>mid. events h p T = (Some (root_of T), p, True) # mid @ [(Some (root_of T), p, False)]"
  by (cases T) simp

lemma kid_event:
  assumes C: "C \<in> set (subtrees T)" and t: "t \<in> set (kids C)"
  shows "(Some (root_of t), Some (root_of C), True) \<in> set (events h p T)"
proof -
  obtain c ts where Ceq: "C = Tree c ts" by (cases C)
  from events_subtree [OF C, of h p] obtain xs zs q
    where ev: "events h p T = xs @ events h q C @ zs"
    by (elim exE conjE)
  from events_ends [of h "Some c" t]
  have "(Some (root_of t), Some c, True) \<in> set (events h (Some c) t)"
    by (elim exE) simp
  moreover have "t \<in> set (visit_order (h c) ts)" using t by (simp add: Ceq)
  ultimately have "(Some (root_of t), Some c, True) \<in> set (events h q C)"
    unfolding Ceq events.simps by (simp; blast)
  moreover have "root_of C = c" by (simp add: Ceq)
  ultimately show ?thesis unfolding ev by simp
qed

lemma kid_root_neq:
  assumes dist: "distinct (nodes T)" and C: "C \<in> set (subtrees T)" and t: "t \<in> set (kids C)"
  shows "root_of t \<noteq> root_of T"
proof -
  obtain r ts where T: "T = Tree r ts" by (cases T)
  have sub: "t \<in> set (subtrees T)" using C t by (rule kids_subtrees)
  have "t \<noteq> T"
  proof
    assume "t = T"
    have "size t < size C" using t by (cases C) (auto simp: less_Suc_eq_le size_list_estimation')
    moreover have "size C \<le> size T" using C
    proof (induction T)
      case (Tree a us)
      from Tree.prems show ?case
      proof (cases rule: subtrees_cases)
        case 1
        then show ?thesis by simp
      next
        case (2 u)
        then have "size C \<le> size u" by (rule Tree.IH)
        also have "size u \<le> size (Tree a us)"
          using 2(1) by (simp add: le_SucI size_list_estimation')
        finally show ?thesis .
      qed
    qed
    ultimately show False using \<open>t = T\<close> by simp
  qed
  with sub obtain u where u: "u \<in> set ts" "t \<in> set (subtrees u)"
    unfolding T by (auto elim: subtrees_cases)
  then have "root_of t \<in> set (nodes u)"
    by (auto simp: set_nodes_subtrees)
  with u(1) have "root_of t \<in> set (concat (map nodes ts))" by auto
  with dist show ?thesis by (auto simp: T)
qed

lemma event_forms:
  "ev \<in> set (events h p T) \<Longrightarrow>
     ev = (Some (root_of T), p, True) \<or> ev = (Some (root_of T), p, False) \<or>
     (\<exists>C \<in> set (subtrees T). \<exists>t \<in> set (kids C). \<exists>e.
        ev = (Some (root_of t), Some (root_of C), e))"
proof (induction T arbitrary: p)
  case (Tree a ts)
  show ?case
  proof (cases "ev = (Some a, p, True) \<or> ev = (Some a, p, False)")
    case True
    then show ?thesis by auto
  next
    case False
    with Tree.prems obtain t where t: "t \<in> set ts" "ev \<in> set (events h (Some a) t)"
      by auto
    from Tree.IH [OF this] consider
      e where "ev = (Some (root_of t), Some a, e)"
      | C u e where "C \<in> set (subtrees t)" "u \<in> set (kids C)"
          "ev = (Some (root_of u), Some (root_of C), e)"
      by blast
    then show ?thesis
    proof cases
      case 1
      have "Tree a ts \<in> set (subtrees (Tree a ts))" by (rule subtrees_self)
      moreover have "t \<in> set (kids (Tree a ts))" using t(1) by simp
      ultimately show ?thesis using 1 by (metis root_of.simps)
    next
      case 2
      from 2(1) t(1) have "C \<in> set (subtrees (Tree a ts))" by auto
      with 2(2,3) show ?thesis by blast
    qed
  qed
qed


lemma node_events_same_parent:
  assumes dist: "distinct (nodes T)" and a: "a \<in> set (nodes T)"
  shows "\<exists>q. (Some a, q, True) \<in> set (events h p T) \<and> (Some a, q, False) \<in> set (events h p T)
    \<and> (\<forall>q' e. (Some a, q', e) \<in> set (events h p T) \<longrightarrow> q' = q)"
proof -
  from a obtain S where S: "S \<in> set (subtrees T)" "root_of S = a"
    by (auto simp: set_nodes_subtrees)
  from events_bracket [OF dist S(1), of h p] obtain xs mid zs q
    where ev: "events h p T =
        xs @ (Some (root_of S), q, True) # mid @ (Some (root_of S), q, False) # zs"
      and out: "Some (root_of S) \<notin> node_of ` (set xs \<union> set mid \<union> set zs)"
    by (elim exE conjE)
  have "q' = q" if "(Some a, q', e) \<in> set (events h p T)" for q' e
  proof (rule ccontr)
    assume "q' \<noteq> q"
    with that have "(Some a, q', e) \<in> set xs \<union> set mid \<union> set zs"
      by (auto simp: ev S(2))
    then have "node_of (Some a, q', e) \<in> node_of ` (set xs \<union> set mid \<union> set zs)"
      by (rule imageI)
    with out show False by (simp add: node_of_def S(2))
  qed
  moreover have "(Some a, q, True) \<in> set (events h p T)" "(Some a, q, False) \<in> set (events h p T)"
    by (simp_all add: ev S(2))
  ultimately show ?thesis by blast
qed

lemma child_has_event:
  assumes tree: "is_tree h n T" and c: "c \<in> set (nodes T)"
    and a: "Some a \<in> set (children (h c))"
  shows "(Some a, Some c, True) \<in> set (events h p T)"
proof -
  from c obtain C where C: "C \<in> set (subtrees T)" "root_of C = c"
    by (auto simp: set_nodes_subtrees)
  from tree C(1) have "is_tree h (Some (root_of C)) C" by (rule is_tree_subtree)
  then have "children (h c) = map (\<lambda>t. Some (root_of t)) (kids C)"
    using is_tree_kids [of h "Some (root_of C)" C] C(2) by simp
  with a obtain t where t: "t \<in> set (kids C)" "root_of t = a" by auto
  from kid_event [OF C(1) t(1), of h p] show ?thesis by (simp add: C(2) t(2))
qed

lemma nth_in_segment:
  assumes "i < length (A @ B @ R)" and "P ((A @ B @ R) ! i)"
    and "\<forall>x \<in> set A. \<not> P x" and "\<forall>x \<in> set R. \<not> P x"
  shows "length A \<le> i \<and> i < length A + length B"
proof (intro conjI)
  show "length A \<le> i"
  proof (rule ccontr)
    assume "\<not> length A \<le> i"
    then have "(A @ B @ R) ! i \<in> set A" by (simp add: nth_append)
    with assms(2,3) show False by blast
  qed
  show "i < length A + length B"
  proof (rule ccontr)
    assume *: "\<not> i < length A + length B"
    then have "\<not> i < length A" "\<not> i - length A < length B" by arith+
    then have "(A @ B @ R) ! i = R ! (i - length A - length B)"
      by (simp only: nth_append if_False)
    moreover have "i - length A - length B < length R" using assms(1) * by simp
    ultimately have "(A @ B @ R) ! i \<in> set R" by simp
    with assms(2,4) show False by blast
  qed
qed

lemma events_hd: "events h p t ! 0 = (Some (root_of t), p, True)"
  by (cases t) simp

lemma is_tree_Some_root: "is_tree h n t \<Longrightarrow> n = Some (root_of t)"
  by (cases t) simp

lemma IndexAccess_segments:
  assumes tree: "is_tree h (Some r) T" and dist: "distinct (nodes T)"
    and a: "a \<in> set (nodes T)" and ha: "h a = IndexAccessNode operand index parent"
  shows "\<exists>tO tI A D. is_tree h operand tO \<and> is_tree h index tI
    \<and> events h None T = A @ events h (Some a) tI @ events h (Some a) tO @ D
    \<and> (\<forall>x \<in> set A \<union> set D. node_of x \<notin> Some ` set (nodes tI) \<union> Some ` set (nodes tO))
    \<and> set (nodes tI) \<inter> set (nodes tO) = {}"
proof -
  from a obtain S where S: "S \<in> set (subtrees T)" "root_of S = a"
    by (auto simp: set_nodes_subtrees)
  obtain ts where Seq: "S = Tree a ts" using S(2) by (cases S) simp
  from tree S(1) have "is_tree h (Some (root_of S)) S" by (rule is_tree_subtree)
  then have "list_all2 (is_tree h) [operand, index] ts"
    by (simp add: Seq are_trees_iff ha)
  then obtain tO tI where ts: "ts = [tO, tI]" and tO: "is_tree h operand tO"
    and tI: "is_tree h index tI"
    by (auto simp: list_all2_Cons1)
  from events_subtree [OF S(1), of h None] obtain xs zs q
    where ev: "events h None T = xs @ events h q S @ zs"
    by (elim exE conjE)
  define A where "A = xs @ [(Some a, q, True)]"
  define D where "D = (Some a, q, False) # zs"
  have split: "events h None T = A @ events h (Some a) tI @ events h (Some a) tO @ D"
    by (simp add: ev Seq ts ha A_def D_def)
  have dS: "distinct (nodes S)" using dist S(1) by (rule distinct_nodes_subtree)
  then have disj: "set (nodes tI) \<inter> set (nodes tO) = {}"
    and notin: "a \<notin> set (nodes tI)" "a \<notin> set (nodes tO)"
    by (auto simp: Seq ts)
  have out: "Some b \<notin> node_of ` (set xs \<union> set zs)" if "b \<in> set (nodes S)" for b
    using dist ev that by (rule events_outside)
  have "node_of x \<notin> Some ` set (nodes tI) \<union> Some ` set (nodes tO)" if "x \<in> set A \<union> set D" for x
  proof
    assume "node_of x \<in> Some ` set (nodes tI) \<union> Some ` set (nodes tO)"
    then obtain b where b: "node_of x = Some b" "b \<in> set (nodes tI) \<union> set (nodes tO)"
      by blast
    then have bS: "b \<in> set (nodes S)" and "b \<noteq> a"
      using notin by (auto simp: Seq ts)
    from that consider "x \<in> set xs \<union> set zs" | "node_of x = Some a"
      by (auto simp: A_def D_def node_of_def)
    then show False
    proof cases
      case 1
      then have "node_of x \<in> node_of ` (set xs \<union> set zs)" by (rule imageI)
      with out [OF bS] b(1) show False by simp
    next
      case 2
      with b(1) \<open>b \<noteq> a\<close> show False by simp
    qed
  qed
  then have outside: "\<forall>x \<in> set A \<union> set D.
      node_of x \<notin> Some ` set (nodes tI) \<union> Some ` set (nodes tO)"
    by (rule ballI)
  show ?thesis
    by (rule exI [of _ tO], rule exI [of _ tI], rule exI [of _ A], rule exI [of _ D])
      (intro conjI tO tI split outside disj)
qed

lemma unary_trace:
  assumes tree: "is_tree h (Some a) T" and kids: "children (h a) = [c]"
    and order: "\<And>ts :: tree list. visit_order (h a) ts = ts"
  shows "\<exists>tC tr. is_tree h c tC \<and> trace h c (Some a) = Some tr
      \<and> node_of ` set tr = Some ` set (nodes tC)
      \<and> trace h (Some a) p = Some ((Some a, p, True) # tr @ [(Some a, p, False)])"
proof -
  obtain ts where T: "T = Tree a ts" using tree by (cases T) simp
  from tree have "list_all2 (is_tree h) [c] ts" by (simp add: T are_trees_iff kids)
  then obtain tC where ts: "ts = [tC]" and tC: "is_tree h c tC"
    by (auto simp: list_all2_Cons1)
  have "trace h (Some a) p = Some (events h p T)" using tree by (rule trace_events)
  then have "trace h (Some a) p =
      Some ((Some a, p, True) # events h (Some a) tC @ [(Some a, p, False)])"
    by (simp add: T ts order)
  with tC trace_events [OF tC, of "Some a"] set_node_of_events [of h "Some a" tC]
  show ?thesis by blast
qed

lemma binary_trace:
  assumes tree: "is_tree h (Some a) T" and kids: "children (h a) = [c, d]"
    and order: "\<And>ts :: tree list. visit_order (h a) ts = ts"
  shows "\<exists>tC tD trC trD. is_tree h c tC \<and> is_tree h d tD
      \<and> trace h c (Some a) = Some trC \<and> trace h d (Some a) = Some trD
      \<and> node_of ` set trC = Some ` set (nodes tC) \<and> node_of ` set trD = Some ` set (nodes tD)
      \<and> trace h (Some a) p = Some ((Some a, p, True) # trC @ trD @ [(Some a, p, False)])"
proof -
  obtain ts where T: "T = Tree a ts" using tree by (cases T) simp
  from tree have "list_all2 (is_tree h) [c, d] ts" by (simp add: T are_trees_iff kids)
  then obtain tC tD where ts: "ts = [tC, tD]" and tC: "is_tree h c tC" and tD: "is_tree h d tD"
    by (auto simp: list_all2_Cons1)
  have "trace h (Some a) p = Some (events h p T)" using tree by (rule trace_events)
  then have "trace h (Some a) p =
      Some ((Some a, p, True) # events h (Some a) tC @ events h (Some a) tD @ [(Some a, p, False)])"
    by (simp add: T ts order)
  with tC tD trace_events [OF tC, of "Some a"] trace_events [OF tD, of "Some a"]
    set_node_of_events [of h "Some a" tC] set_node_of_events [of h "Some a" tD]
  show ?thesis by blast
qed

lemma args_trace:
  assumes tree: "is_tree h (Some a) T" and ha: "h a = FuncCallNode callee args tok parent"
  shows "\<exists>ts trs. list_all2 (is_tree h) args ts
      \<and> list_all2 (\<lambda>x tr. trace h x (Some a) = Some tr) args trs
      \<and> list_all2 (\<lambda>t tr. node_of ` set tr = Some ` set (nodes t)) ts trs
      \<and> trace h (Some a) p = Some ((Some a, p, True) # concat trs @ [(Some a, p, False)])"
proof -
  obtain ts where T: "T = Tree a ts" using tree by (cases T) simp
  from tree have kids: "list_all2 (is_tree h) args ts" by (simp add: T are_trees_iff ha)
  define trs where "trs = map (events h (Some a)) ts"
  have "list_all2 (\<lambda>x t. trace h x (Some a) = Some (events h (Some a) t)) args ts"
    using kids by (rule list_all2_mono) (rule trace_events)
  then have 1: "list_all2 (\<lambda>x tr. trace h x (Some a) = Some tr) args trs"
    by (simp add: trs_def list_all2_map2)
  have 2: "list_all2 (\<lambda>t tr. node_of ` set tr = Some ` set (nodes t)) ts trs"
    by (simp add: trs_def list_all2_map2 list_all2_same set_node_of_events)
  have "trace h (Some a) p = Some (events h p T)" using tree by (rule trace_events)
  then have 3: "trace h (Some a) p = Some ((Some a, p, True) # concat trs @ [(Some a, p, False)])"
    by (simp add: T ha trs_def)
  from kids 1 2 3 show ?thesis by blast
qed

lemma leaf_trace:
  assumes tree: "is_tree h (Some a) T" and kids: "children (h a) = []"
  shows "trace h (Some a) p = Some [(Some a, p, True), (Some a, p, False)]"
proof -
  obtain ts where T: "T = Tree a ts" using tree by (cases T) simp
  from tree have "ts = []" by (simp add: T are_trees_iff kids)
  with trace_events [OF tree, of p] show ?thesis by (simp add: T)
qed

lemma index_trace:
  assumes tree: "is_tree h (Some a) T" and ha: "h a = IndexAccessNode operand index parent"
  shows "\<exists>tC tD trC trD. is_tree h index tC \<and> is_tree h operand tD
      \<and> trace h index (Some a) = Some trC \<and> trace h operand (Some a) = Some trD
      \<and> node_of ` set trC = Some ` set (nodes tC) \<and> node_of ` set trD = Some ` set (nodes tD)
      \<and> trace h (Some a) p = Some ((Some a, p, True) # trC @ trD @ [(Some a, p, False)])"
proof -
  obtain ts where T: "T = Tree a ts" using tree by (cases T) simp
  from tree have "list_all2 (is_tree h) [operand, index] ts" by (simp add: T are_trees_iff ha)
  then obtain tD tC where ts: "ts = [tD, tC]" and tD: "is_tree h operand tD"
    and tC: "is_tree h index tC"
    by (auto simp: list_all2_Cons1)
  have "trace h (Some a) p = Some (events h p T)" using tree by (rule trace_events)
  then have "trace h (Some a) p =
      Some ((Some a, p, True) # events h (Some a) tC @ events h (Some a) tD @ [(Some a, p, False)])"
    by (simp add: T ts ha)
  with tC tD trace_events [OF tC, of "Some a"] trace_events [OF tD, of "Some a"]
    set_node_of_events [of h "Some a" tC] set_node_of_events [of h "Some a" tD]
  show ?thesis by blast
qed

section \<open>Tokens and ancestors\<close>

lemma Token_delegate: "delegate (h a) = Some c \<Longrightarrow> Token h (Some a) = Token h c"
  by (subst Token.simps) (cases "h a"; simp)

lemma Token_own: "own_token (h a) = Some tok \<Longrightarrow> Token h (Some a) = Some (Inr tok)"
  by (subst Token.simps) (cases "h a"; simp)

lemma delegate_or_own:
  "(\<exists>c cs. delegate nd = Some c \<and> children nd = c # cs) \<or> (\<exists>tok. delegate nd = None \<and> own_token nd = Some tok)"
  by (cases nd) simp_all

lemma Token_terminates:
  "is_tree h (Some a) T \<Longrightarrow>
    \<exists>path tok. path \<noteq> [] \<and> hd path = a \<and> set path \<subseteq> set (nodes T) \<and> delegation h path
      \<and> own_token (h (last path)) = Some tok \<and> Token h (Some a) = Some (Inr tok)"
proof (induction T arbitrary: a)
  case (Tree b ts)
  then have ab: "b = a" and kids: "list_all2 (is_tree h) (children (h a)) ts"
    by (simp_all add: are_trees_iff)
  from delegate_or_own [of "h a"] show ?case
  proof (elim disjE exE conjE)
    fix tok assume "delegate (h a) = None" "own_token (h a) = Some tok"
    then have "[a] \<noteq> [] \<and> hd [a] = a \<and> set [a] \<subseteq> set (nodes (Tree b ts)) \<and> delegation h [a]
      \<and> own_token (h (last [a])) = Some tok \<and> Token h (Some a) = Some (Inr tok)"
      by (simp add: ab Token_own)
    then show ?thesis by blast
  next
    fix c cs assume d: "delegate (h a) = Some c" and c: "children (h a) = c # cs"
    with kids obtain t us where ts: "ts = t # us" and t: "is_tree h c t"
      by (auto simp: list_all2_Cons1)
    from t have ceq: "c = Some (root_of t)" by (rule is_tree_Some_root)
    have "t \<in> set ts" by (simp add: ts)
    from Tree.IH [OF this t [unfolded ceq]] obtain path tok
      where p: "path \<noteq> []" "hd path = root_of t" "set path \<subseteq> set (nodes t)" "delegation h path"
        "own_token (h (last path)) = Some tok" "Token h (Some (root_of t)) = Some (Inr tok)"
      by blast
    from p(1,2) obtain rest where path: "path = root_of t # rest" by (cases path) auto
    have "delegation h (a # path)" using p(4) d by (simp add: path ceq)
    moreover have "set (a # path) \<subseteq> set (nodes (Tree b ts))"
      using p(3) by (auto simp: ab ts)
    moreover have "Token h (Some a) = Some (Inr tok)"
      using Token_delegate [of h a c, OF d] p(6) by (simp add: ceq)
    moreover have "own_token (h (last (a # path))) = Some tok" using p(1,5) by simp
    ultimately have "a # path \<noteq> [] \<and> hd (a # path) = a \<and> set (a # path) \<subseteq> set (nodes (Tree b ts))
      \<and> delegation h (a # path) \<and> own_token (h (last (a # path))) = Some tok
      \<and> Token h (Some a) = Some (Inr tok)"
      by simp
    then show ?thesis by blast
  qed
qed

lemma logged_apply: "logged pred n log = (pred n, log @ [n])"
  by (simp add: logged_def)

lemma FindParent_loop_no_match:
  "parent_chain h n as \<Longrightarrow> \<forall>x \<in> set as. \<not> snd (pred (Some x)) \<Longrightarrow>
    FindParent_loop h (logged pred) zero n log = Some ((zero, False), log @ map Some as)"
proof (induction as arbitrary: n log)
  case Nil
  then show ?case by (subst FindParent_loop.simps) simp
next
  case (Cons a as)
  from Cons.prems have n: "n = Some a" and chain: "parent_chain h (Parent (h a)) as"
    and no: "\<not> snd (pred (Some a))" "\<forall>x \<in> set as. \<not> snd (pred (Some x))"
    by simp_all
  have "FindParent_loop h (logged pred) zero n log =
      FindParent_loop h (logged pred) zero (Parent (h a)) (log @ [Some a])"
    using no(1)
    by (subst FindParent_loop.simps) (cases "pred (Some a)"; simp add: n logged_apply)
  also have "\<dots> = Some ((zero, False), (log @ [Some a]) @ map Some as)"
    using chain no(2) by (rule Cons.IH)
  finally show ?case by simp
qed

lemma FindParent_loop_match:
  "parent_chain h n (pre @ m # post) \<Longrightarrow> \<forall>x \<in> set pre. \<not> snd (pred (Some x)) \<Longrightarrow>
    snd (pred (Some m)) \<Longrightarrow>
    FindParent_loop h (logged pred) zero n log =
      Some ((fst (pred (Some m)), True), log @ map Some (pre @ [m]))"
proof (induction pre arbitrary: n log)
  case Nil
  then have n: "n = Some m" by simp
  show ?case
    using Nil.prems(3)
    by (subst FindParent_loop.simps) (cases "pred (Some m)"; simp add: n logged_apply)
next
  case (Cons a pre)
  from Cons.prems have n: "n = Some a"
    and chain: "parent_chain h (Parent (h a)) (pre @ m # post)"
    and no: "\<not> snd (pred (Some a))" "\<forall>x \<in> set pre. \<not> snd (pred (Some x))"
    by simp_all
  have "FindParent_loop h (logged pred) zero n log =
      FindParent_loop h (logged pred) zero (Parent (h a)) (log @ [Some a])"
    using no(1)
    by (subst FindParent_loop.simps) (cases "pred (Some a)"; simp add: n logged_apply)
  also have "\<dots> = Some ((fst (pred (Some m)), True), (log @ [Some a]) @ map Some (pre @ [m]))"
    using chain no(2) Cons.prems(3) by (rule Cons.IH)
  finally show ?case by simp
qed

lemma parent_chain_suffix:
  "parent_chain h n (pre @ a # post) \<Longrightarrow> parent_chain h (Parent (h a)) post"
  by (induction pre arbitrary: n) simp_all

lemma parent_chain_unique:
  "parent_chain h n as \<Longrightarrow> parent_chain h n bs \<Longrightarrow> as = bs"
proof (induction as arbitrary: n bs)
  case Nil
  then show ?case by (cases bs) simp_all
next
  case (Cons a as)
  then show ?case by (cases bs) auto
qed

lemma parent_chain_acyclic:
  assumes "parent_chain h (Parent (h a)) as"
  shows "a \<notin> set as"
proof
  assume "a \<in> set as"
  then obtain pre post where as: "as = pre @ a # post" by (auto dest: split_list)
  with assms have "parent_chain h (Parent (h a)) post" by (auto dest: parent_chain_suffix)
  with assms have "as = post" by (rule parent_chain_unique)
  with as show False by simp
qed

section \<open>Outside the trees: \<open>nil\<close> and cycles\<close>

text \<open>
  What the three functions do where the claims do not reach. On \<open>nil\<close> the walker calls the
  callback twice, and the two methods called on \<open>nil\<close> panic. On a node that is its own
  receiver, operand or parent, \<open>Token\<close>, the walker and an ancestor search whose predicate
  never matches do not return.
\<close>

lemma VisitExprNode_nil: "VisitExprNode h None f s = Some (f None None False (f None None True s))"
  unfolding VisitExprNode_def by (subst visitExprNode.simps) (simp add: visitChildren_def)

lemma Token_nil: "Token h None = Some (Inl NilDereference)"
  by (subst Token.simps) simp

lemma FindParent_nil: "FindParent h None predicate zero s = Some (Inl NilDereference)"
  by (simp add: FindParent_def)

lemma Token_cycle_aux:
  "Token h n = Some y \<Longrightarrow> h a = ObjectDerefNode (Some a) property parent \<longrightarrow> n \<noteq> Some a"
proof (induction h n y rule: Token.raw_induct [rotated, consumes 1, case_names step])
  case (step Token h n y)
  show ?case
  proof (intro impI notI)
    assume cyc: "h a = ObjectDerefNode (Some a) property parent" and n: "n = Some a"
    with step(2) have "Token h (Some a) = Some y" by simp
    from step(1) [OF this] cyc show False by simp
  qed
qed

lemma Token_cycle:
  "h a = ObjectDerefNode (Some a) property parent \<Longrightarrow> Token h (Some a) = None"
  using Token_cycle_aux [of h "Some a" _ a property parent] by (cases "Token h (Some a)") auto

lemma visitExprNode_cycle_aux:
  "visitExprNode h f n p s = Some y \<Longrightarrow> h a = NotOpNode (Some a) tok parent \<longrightarrow> n \<noteq> Some a"
proof (induction h f n p s y rule: visitExprNode.raw_induct [rotated, consumes 1, case_names step])
  case (step visit h f n p s y)
  show ?case
  proof (intro impI notI)
    assume cyc: "h a = NotOpNode (Some a) tok parent" and n: "n = Some a"
    with step(2) obtain s' where "visit h f (Some a) (Some a) (f (Some a) p True s) = Some s'"
      by (auto simp: visitChildren_def split: Option.bind_splits)
    from step(1) [OF this] cyc show False by simp
  qed
qed

lemma visitExprNode_cycle:
  "h a = NotOpNode (Some a) tok parent \<Longrightarrow> visitExprNode h f (Some a) p s = None"
  using visitExprNode_cycle_aux [of h f "Some a" p s _ a tok parent]
  by (cases "visitExprNode h f (Some a) p s") auto

lemma FindParent_loop_cycle_aux:
  "FindParent_loop h predicate zero n s = Some y \<Longrightarrow>
    Parent (h a) = Some a \<and> (\<forall>s. \<not> snd (fst (predicate (Some a) s))) \<longrightarrow> n \<noteq> Some a"
proof (induction h predicate zero n s y
    rule: FindParent_loop.raw_induct [rotated, consumes 1, case_names step])
  case (step loop h predicate zero n s y)
  show ?case
  proof (intro impI notI)
    assume cyc: "Parent (h a) = Some a \<and> (\<forall>s. \<not> snd (fst (predicate (Some a) s)))"
      and n: "n = Some a"
    obtain t ok s' where p: "predicate (Some a) s = ((t, ok), s')"
      by (metis prod.collapse)
    with cyc have "\<not> ok" by (metis fst_conv snd_conv)
    with step(2) p cyc have "loop h predicate zero (Some a) s' = Some y"
      by (simp add: n)
    from step(1) [OF this] cyc show False by simp
  qed
qed

lemma FindParent_cycle:
  assumes "Parent (h a) = Some a" and "\<forall>s. \<not> snd (fst (predicate (Some a) s))"
  shows "FindParent h (Some a) predicate zero s = None"
proof -
  have "FindParent_loop h predicate zero (Some a) s = None"
    using FindParent_loop_cycle_aux [of h predicate zero "Some a" s _ a] assms
    by (cases "FindParent_loop h predicate zero (Some a) s") auto
  with assms(1) show ?thesis by (simp add: FindParent_def)
qed

section \<open>The example tree\<close>

lemma example_heap_simps:
  "example_heap 0 = IndexAccessNode (Some 1) (Some 3) None"
  "example_heap 1 = ObjectDerefNode (Some 2) ''bar'' (Some 0)"
  "example_heap 2 = VariableNode ''foo'' ''foo'' (Some 1)"
  "example_heap 3 = ObjectDerefNode (Some 4) ''qux'' (Some 0)"
  "example_heap 4 = VariableNode ''baz'' ''baz'' (Some 3)"
  by (simp_all add: example_heap_def)

lemma example_is_tree: "is_tree example_heap (Some 0) example_tree"
  by (simp add: example_heap_def example_tree_def)

lemma example_distinct: "distinct (nodes example_tree)"
  by (simp add: example_tree_def)

lemma example_trace:
  "VisitExprNode example_heap (Some 0) record_call [] =
     Some [(Some 0, None, True),
           (Some 3, Some 0, True), (Some 4, Some 3, True),
           (Some 4, Some 3, False), (Some 3, Some 0, False),
           (Some 1, Some 0, True), (Some 2, Some 1, True),
           (Some 2, Some 1, False), (Some 1, Some 0, False),
           (Some 0, None, False)]"
  unfolding VisitExprNode_record [OF example_is_tree]
  by (simp add: example_tree_def example_heap_def)

lemma example_heap2_simps:
  "example_heap2 2 = FuncCallNode ''contains'' [Some 3, Some 5] ''contains'' (Some 1)"
  "example_heap2 3 = ArrayDerefNode (Some 4) (Some 2)"
  "example_heap2 4 = VariableNode ''foo'' ''foo'' (Some 3)"
  "example_heap2 5 = StringNode ''x'' ''x'' (Some 2)"
  "example_heap2 6 = CompareOpNode CompareOpNodeKindEq (Some 7) (Some 8) (Some 0)"
  "example_heap2 7 = VariableNode ''a'' ''a'' (Some 6)"
  "example_heap2 8 = IntNode 1 ''1'' (Some 6)"
  by (simp_all add: example_heap2_def)

section \<open>What the walker does on a tree\<close>

text \<open>
  C1. On a tree in the heap, rooted at \<open>r\<close>, \<open>VisitExprNode\<close> returns, and what it did to the
  callback's state is what running the callback over the recorded invocations \<open>tr\<close> does.
  There are twice as many invocations as nodes. For every node \<open>a\<close> of the tree, \<open>tr\<close> is a
  list \<open>xs\<close>, the invocation entering \<open>a\<close>, a list \<open>mid\<close>, the invocation leaving \<open>a\<close> with the
  same parent argument, and a list \<open>zs\<close>, where the nodes of \<open>mid\<close> are exactly the nodes below
  \<open>a\<close>, no invocation of \<open>xs\<close> or \<open>zs\<close> is for a node of the subtree of \<open>a\<close>, and no other
  invocation is for \<open>a\<close>.
\<close>

theorem VisitExprNode_twice_per_node:
  assumes "is_tree h (Some r) T" and "distinct (nodes T)"
  shows "\<exists>tr. VisitExprNode h (Some r) record_call [] = Some tr
    \<and> VisitExprNode h (Some r) f s = Some (replay f tr s)
    \<and> length tr = 2 * length (nodes T)
    \<and> (\<forall>a \<in> set (nodes T). \<exists>S \<in> set (subtrees T). root_of S = a \<and>
         (\<exists>xs mid zs q.
            tr = xs @ (Some a, q, True) # mid @ (Some a, q, False) # zs
          \<and> node_of ` set mid = Some ` set (concat (map nodes (kids S)))
          \<and> Some a \<notin> node_of ` (set xs \<union> set mid \<union> set zs)
          \<and> node_of ` (set xs \<union> set zs) \<inter> Some ` set (nodes S) = {}))"
proof (intro exI conjI ballI)
  show "VisitExprNode h (Some r) record_call [] = Some (events h None T)"
    using assms(1) by (rule VisitExprNode_record)
  show "VisitExprNode h (Some r) f s = Some (replay f (events h None T) s)"
    using assms(1) by (rule VisitExprNode_events)
  show "length (events h None T) = 2 * length (nodes T)"
    by (rule length_events)
next
  fix a assume "a \<in> set (nodes T)"
  then obtain S where S: "S \<in> set (subtrees T)" "root_of S = a"
    by (auto simp: set_nodes_subtrees)
  from events_bracket [OF assms(2) S(1), of h None]
  have "\<exists>xs mid zs q.
            events h None T = xs @ (Some (root_of S), q, True) # mid @ (Some (root_of S), q, False) # zs
          \<and> node_of ` set mid = Some ` set (concat (map nodes (kids S)))
          \<and> Some (root_of S) \<notin> node_of ` (set xs \<union> set mid \<union> set zs)
          \<and> node_of ` (set xs \<union> set zs) \<inter> Some ` set (nodes S) = {}"
    by (elim exE conjE) (intro exI conjI)
  then have "\<exists>xs mid zs q.
            events h None T = xs @ (Some a, q, True) # mid @ (Some a, q, False) # zs
          \<and> node_of ` set mid = Some ` set (concat (map nodes (kids S)))
          \<and> Some a \<notin> node_of ` (set xs \<union> set mid \<union> set zs)
          \<and> node_of ` (set xs \<union> set zs) \<inter> Some ` set (nodes S) = {}"
    unfolding S(2) .
  with S show "\<exists>S \<in> set (subtrees T). root_of S = a \<and>
         (\<exists>xs mid zs q.
            events h None T = xs @ (Some a, q, True) # mid @ (Some a, q, False) # zs
          \<and> node_of ` set mid = Some ` set (concat (map nodes (kids S)))
          \<and> Some a \<notin> node_of ` (set xs \<union> set mid \<union> set zs)
          \<and> node_of ` (set xs \<union> set zs) \<inter> Some ` set (nodes S) = {})"
    by (intro bexI [of _ S] conjI)
qed

theorem VisitExprNode_twice_per_node_witness:
  "is_tree example_heap (Some 0) example_tree \<and> distinct (nodes example_tree)
   \<and> (\<exists>tr. VisitExprNode example_heap (Some 0) record_call [] = Some tr \<and> length tr = 10
        \<and> VisitExprNode example_heap (Some 0) (\<lambda>n p e k. Suc k) 0 = Some (replay (\<lambda>n p e k. Suc k) tr 0))"
proof -
  from VisitExprNode_twice_per_node [OF example_is_tree example_distinct, of "\<lambda>n p e k. Suc k" 0]
  obtain tr where "VisitExprNode example_heap (Some 0) record_call [] = Some tr"
    "VisitExprNode example_heap (Some 0) (\<lambda>n p e k. Suc k) 0 = Some (replay (\<lambda>n p e k. Suc k) tr 0)"
    "length tr = 2 * length (nodes example_tree)"
    by (elim exE conjE)
  then show ?thesis
    using example_is_tree example_distinct by (auto simp: example_tree_def)
qed


text \<open>
  C2. On a tree in the heap that has an \<open>IndexAccessNode\<close> at \<open>a\<close>, with the tree \<open>tO\<close> below
  its \<open>Operand\<close> field and the tree \<open>tI\<close> below its \<open>Index\<close> field: every invocation for a
  node of \<open>tI\<close> comes before every invocation for a node of \<open>tO\<close>, and the index is entered
  before the operand is. In the tree of \<open>foo.bar[baz.qux]\<close> the nodes are entered in the
  order 0 (the index access), 3 (\<open>baz.qux\<close>), 4 (\<open>baz\<close>), 1 (\<open>foo.bar\<close>), 2 (\<open>foo\<close>).
\<close>

theorem IndexAccess_index_before_operand:
  assumes "is_tree h (Some r) T" and "distinct (nodes T)"
    and "a \<in> set (nodes T)" and "h a = IndexAccessNode operand index parent"
  shows "(\<exists>tr tO tI. VisitExprNode h (Some r) record_call [] = Some tr
      \<and> is_tree h operand tO \<and> is_tree h index tI
      \<and> (\<forall>i j. i < length tr \<and> j < length tr
            \<and> node_of (tr ! i) \<in> Some ` set (nodes tI)
            \<and> node_of (tr ! j) \<in> Some ` set (nodes tO) \<longrightarrow> i < j)
      \<and> (\<exists>i j. i < j \<and> j < length tr
            \<and> tr ! i = (index, Some a, True) \<and> tr ! j = (operand, Some a, True)))
    \<and> (\<exists>tr. VisitExprNode example_heap (Some 0) record_call [] = Some tr
      \<and> entered tr = [Some 0, Some 3, Some 4, Some 1, Some 2])"
proof (rule conjI)
  let ?tr = "events h None T"
  from IndexAccess_segments [OF assms] obtain tO tI A D
    where tO: "is_tree h operand tO" and tI: "is_tree h index tI"
      and split: "?tr = A @ events h (Some a) tI @ events h (Some a) tO @ D"
      and outside: "\<forall>x \<in> set A \<union> set D.
          node_of x \<notin> Some ` set (nodes tI) \<union> Some ` set (nodes tO)"
      and disj: "set (nodes tI) \<inter> set (nodes tO) = {}"
    by (elim exE conjE)
  let ?B = "events h (Some a) tI" and ?C = "events h (Some a) tO"
  have nB: "node_of ` set ?B = Some ` set (nodes tI)"
    and nC: "node_of ` set ?C = Some ` set (nodes tO)"
    by (rule set_node_of_events)+
  have inB: "node_of x \<in> Some ` set (nodes tI)" if "x \<in> set ?B" for x
    using imageI [OF that, of node_of] unfolding nB .
  have inC: "node_of x \<in> Some ` set (nodes tO)" if "x \<in> set ?C" for x
    using imageI [OF that, of node_of] unfolding nC .
  have sep: "\<not> (y \<in> Some ` set (nodes tI) \<and> y \<in> Some ` set (nodes tO))" for y
    using disj by auto
  have order: "i < j"
    if "i < length ?tr" "j < length ?tr" "node_of (?tr ! i) \<in> Some ` set (nodes tI)"
      "node_of (?tr ! j) \<in> Some ` set (nodes tO)" for i j
  proof -
    have "\<forall>x \<in> set (?C @ D). \<not> node_of x \<in> Some ` set (nodes tI)"
    proof
      fix x assume "x \<in> set (?C @ D)"
      then consider "x \<in> set ?C" | "x \<in> set D" by auto
      then show "\<not> node_of x \<in> Some ` set (nodes tI)"
      proof cases
        case 1
        then show ?thesis using inC sep by blast
      next
        case 2
        then show ?thesis using outside by blast
      qed
    qed
    moreover have "\<forall>x \<in> set A. \<not> node_of x \<in> Some ` set (nodes tI)"
      using outside by blast
    ultimately have I: "length A \<le> i \<and> i < length A + length ?B"
      using that(1,3) unfolding split
      by (intro nth_in_segment [where P = "\<lambda>x. node_of x \<in> Some ` set (nodes tI)"
            and R = "?C @ D"]) simp_all
    have "\<forall>x \<in> set (A @ ?B). \<not> node_of x \<in> Some ` set (nodes tO)"
    proof
      fix x assume "x \<in> set (A @ ?B)"
      then consider "x \<in> set ?B" | "x \<in> set A" by auto
      then show "\<not> node_of x \<in> Some ` set (nodes tO)"
      proof cases
        case 1
        then show ?thesis using inB sep by blast
      next
        case 2
        then show ?thesis using outside by blast
      qed
    qed
    moreover have "\<forall>x \<in> set D. \<not> node_of x \<in> Some ` set (nodes tO)"
      using outside by blast
    ultimately have J: "length (A @ ?B) \<le> j \<and> j < length (A @ ?B) + length ?C"
      using that(2,4) unfolding split
      by (intro nth_in_segment [where P = "\<lambda>x. node_of x \<in> Some ` set (nodes tO)"
            and A = "A @ ?B" and R = D]) simp_all
    from I J show ?thesis by simp
  qed
  have lenB: "0 < length ?B" and lenC: "0 < length ?C"
    by (cases tI; simp) (cases tO; simp)
  have "?tr ! length A = ?B ! 0"
    using lenB unfolding split by (simp add: nth_append)
  then have i: "?tr ! length A = (index, Some a, True)"
    using is_tree_Some_root [OF tI] by (simp add: events_hd)
  have "?tr ! (length A + length ?B) = ?C ! 0"
    using lenC unfolding split by (simp add: nth_append)
  then have j: "?tr ! (length A + length ?B) = (operand, Some a, True)"
    using is_tree_Some_root [OF tO] by (simp add: events_hd)
  have lt: "length A < length A + length ?B" "length A + length ?B < length ?tr"
    using lenB lenC unfolding split by simp_all
  have ex: "\<exists>i j. i < j \<and> j < length ?tr
            \<and> ?tr ! i = (index, Some a, True) \<and> ?tr ! j = (operand, Some a, True)"
    by (rule exI [of _ "length A"], rule exI [of _ "length A + length ?B"])
      (intro conjI lt i j)
  have all: "\<forall>i j. i < length ?tr \<and> j < length ?tr
            \<and> node_of (?tr ! i) \<in> Some ` set (nodes tI)
            \<and> node_of (?tr ! j) \<in> Some ` set (nodes tO) \<longrightarrow> i < j"
    using order by blast
  show "\<exists>tr tO tI. VisitExprNode h (Some r) record_call [] = Some tr
      \<and> is_tree h operand tO \<and> is_tree h index tI
      \<and> (\<forall>i j. i < length tr \<and> j < length tr
            \<and> node_of (tr ! i) \<in> Some ` set (nodes tI)
            \<and> node_of (tr ! j) \<in> Some ` set (nodes tO) \<longrightarrow> i < j)
      \<and> (\<exists>i j. i < j \<and> j < length tr
            \<and> tr ! i = (index, Some a, True) \<and> tr ! j = (operand, Some a, True))"
    by (rule exI [of _ ?tr], rule exI [of _ tO], rule exI [of _ tI])
      (intro conjI VisitExprNode_record [OF assms(1)] tO tI all ex)
next
  show "\<exists>tr. VisitExprNode example_heap (Some 0) record_call [] = Some tr
      \<and> entered tr = [Some 0, Some 3, Some 4, Some 1, Some 2]"
    by (intro exI conjI, rule example_trace) simp
qed


theorem IndexAccess_index_before_operand_witness:
  "is_tree example_heap (Some 0) example_tree \<and> distinct (nodes example_tree)
   \<and> 0 \<in> set (nodes example_tree)
   \<and> example_heap 0 = IndexAccessNode (Some 1) (Some 3) None
   \<and> (\<exists>tr i j. VisitExprNode example_heap (Some 0) record_call [] = Some tr
        \<and> i < j \<and> j < length tr
        \<and> tr ! i = (Some 3, Some 0, True) \<and> tr ! j = (Some 1, Some 0, True))"
proof -
  have a: "0 \<in> set (nodes example_tree)" by (simp add: example_tree_def)
  have ha: "example_heap 0 = IndexAccessNode (Some 1) (Some 3) None"
    by (simp add: example_heap_def)
  from IndexAccess_index_before_operand [OF example_is_tree example_distinct a ha]
  obtain tr i j where "VisitExprNode example_heap (Some 0) record_call [] = Some tr"
    "i < j" "j < length tr" "tr ! i = (Some 3, Some 0, True)" "tr ! j = (Some 1, Some 0, True)"
    by (elim exE conjE)
  then have "\<exists>tr i j. VisitExprNode example_heap (Some 0) record_call [] = Some tr
        \<and> i < j \<and> j < length tr
        \<and> tr ! i = (Some 3, Some 0, True) \<and> tr ! j = (Some 1, Some 0, True)"
    by (intro exI conjI)
  with example_is_tree example_distinct a ha show ?thesis by (intro conjI)
qed


text \<open>
  C5. The invocations of a visit of a node \<open>a\<close> of a tree, by the struct at \<open>a\<close>. For
  \<open>ObjectDerefNode\<close> and \<open>ArrayDerefNode\<close>: entering \<open>a\<close>, the visit of the receiver, leaving
  \<open>a\<close>; for \<open>NotOpNode\<close> the same with the operand. For \<open>CompareOpNode\<close> and
  \<open>LogicalOpNode\<close>: entering \<open>a\<close>, the whole visit of \<open>Left\<close>, the whole visit of \<open>Right\<close>,
  leaving \<open>a\<close>. For \<open>FuncCallNode\<close>: entering \<open>a\<close>, the visits of the arguments one after the
  other in the order of \<open>Args\<close>, leaving \<open>a\<close>. For the six leaf structs: entering \<open>a\<close> and
  leaving \<open>a\<close>, nothing else. Each visit of a child has the parent argument \<open>a\<close> and makes
  invocations for the nodes of the tree below that child only. (The case of
  \<open>IndexAccessNode\<close>, index first, is that of C2.)
\<close>

theorem visitExprNode_child_order:
  assumes "is_tree h (Some a) T"
  shows
    "case h a of
       ObjectDerefNode receiver property parent \<Rightarrow>
         (\<exists>tC tr. is_tree h receiver tC \<and> trace h receiver (Some a) = Some tr
            \<and> node_of ` set tr = Some ` set (nodes tC)
            \<and> trace h (Some a) p = Some ((Some a, p, True) # tr @ [(Some a, p, False)]))
     | ArrayDerefNode receiver parent \<Rightarrow>
         (\<exists>tC tr. is_tree h receiver tC \<and> trace h receiver (Some a) = Some tr
            \<and> node_of ` set tr = Some ` set (nodes tC)
            \<and> trace h (Some a) p = Some ((Some a, p, True) # tr @ [(Some a, p, False)]))
     | IndexAccessNode operand index parent \<Rightarrow>
         (\<exists>tC tD trC trD. is_tree h index tC \<and> is_tree h operand tD
            \<and> trace h index (Some a) = Some trC \<and> trace h operand (Some a) = Some trD
            \<and> node_of ` set trC = Some ` set (nodes tC)
            \<and> node_of ` set trD = Some ` set (nodes tD)
            \<and> trace h (Some a) p =
                Some ((Some a, p, True) # trC @ trD @ [(Some a, p, False)]))
     | NotOpNode operand tok parent \<Rightarrow>
         (\<exists>tC tr. is_tree h operand tC \<and> trace h operand (Some a) = Some tr
            \<and> node_of ` set tr = Some ` set (nodes tC)
            \<and> trace h (Some a) p = Some ((Some a, p, True) # tr @ [(Some a, p, False)]))
     | CompareOpNode kind left right parent \<Rightarrow>
         (\<exists>tC tD trC trD. is_tree h left tC \<and> is_tree h right tD
            \<and> trace h left (Some a) = Some trC \<and> trace h right (Some a) = Some trD
            \<and> node_of ` set trC = Some ` set (nodes tC)
            \<and> node_of ` set trD = Some ` set (nodes tD)
            \<and> trace h (Some a) p =
                Some ((Some a, p, True) # trC @ trD @ [(Some a, p, False)]))
     | LogicalOpNode kind left right parent \<Rightarrow>
         (\<exists>tC tD trC trD. is_tree h left tC \<and> is_tree h right tD
            \<and> trace h left (Some a) = Some trC \<and> trace h right (Some a) = Some trD
            \<and> node_of ` set trC = Some ` set (nodes tC)
            \<and> node_of ` set trD = Some ` set (nodes tD)
            \<and> trace h (Some a) p =
                Some ((Some a, p, True) # trC @ trD @ [(Some a, p, False)]))
     | FuncCallNode callee args tok parent \<Rightarrow>
         (\<exists>ts trs. list_all2 (is_tree h) args ts
            \<and> list_all2 (\<lambda>x tr. trace h x (Some a) = Some tr) args trs
            \<and> list_all2 (\<lambda>t tr. node_of ` set tr = Some ` set (nodes t)) ts trs
            \<and> trace h (Some a) p =
                Some ((Some a, p, True) # concat trs @ [(Some a, p, False)]))
     | VariableNode name tok parent \<Rightarrow> trace h (Some a) p = Some [(Some a, p, True), (Some a, p, False)]
     | NullNode tok parent \<Rightarrow> trace h (Some a) p = Some [(Some a, p, True), (Some a, p, False)]
     | BoolNode v tok parent \<Rightarrow> trace h (Some a) p = Some [(Some a, p, True), (Some a, p, False)]
     | IntNode v tok parent \<Rightarrow> trace h (Some a) p = Some [(Some a, p, True), (Some a, p, False)]
     | FloatNode v tok parent \<Rightarrow> trace h (Some a) p = Some [(Some a, p, True), (Some a, p, False)]
     | StringNode v tok parent \<Rightarrow> trace h (Some a) p = Some [(Some a, p, True), (Some a, p, False)]"
proof (cases "h a")
  case (ObjectDerefNode receiver property parent)
  then show ?thesis using unary_trace [OF assms, of receiver p] by simp
next
  case (ArrayDerefNode receiver parent)
  then show ?thesis using unary_trace [OF assms, of receiver p] by simp
next
  case (IndexAccessNode operand index parent)
  then show ?thesis using index_trace [OF assms, of operand index parent p] by simp
next
  case (NotOpNode operand tok parent)
  then show ?thesis using unary_trace [OF assms, of operand p] by simp
next
  case (CompareOpNode kind left right parent)
  then show ?thesis using binary_trace [OF assms, of left right p] by simp
next
  case (LogicalOpNode kind left right parent)
  then show ?thesis using binary_trace [OF assms, of left right p] by simp
next
  case (FuncCallNode callee args tok parent)
  then show ?thesis using args_trace [OF assms, of callee args tok parent p] by simp
qed (simp_all add: leaf_trace [OF assms])

theorem visitExprNode_child_order_witness:
  "is_tree example_heap2 (Some 6) (Tree 6 [Tree 7 [], Tree 8 []])
   \<and> trace example_heap2 (Some 6) (Some 0) =
       Some [(Some 6, Some 0, True), (Some 7, Some 6, True), (Some 7, Some 6, False),
             (Some 8, Some 6, True), (Some 8, Some 6, False), (Some 6, Some 0, False)]
   \<and> is_tree example_heap2 (Some 2) (Tree 2 [Tree 3 [Tree 4 []], Tree 5 []])
   \<and> trace example_heap2 (Some 2) (Some 1) =
       Some [(Some 2, Some 1, True), (Some 3, Some 2, True), (Some 4, Some 3, True),
             (Some 4, Some 3, False), (Some 3, Some 2, False), (Some 5, Some 2, True),
             (Some 5, Some 2, False), (Some 2, Some 1, False)]"
proof -
  let ?h = example_heap2
  have t4: "is_tree ?h (Some 4) (Tree 4 [])" and t5: "is_tree ?h (Some 5) (Tree 5 [])"
    and t7: "is_tree ?h (Some 7) (Tree 7 [])" and t8: "is_tree ?h (Some 8) (Tree 8 [])"
    and t3: "is_tree ?h (Some 3) (Tree 3 [Tree 4 []])"
    and t6: "is_tree ?h (Some 6) (Tree 6 [Tree 7 [], Tree 8 []])"
    and t2: "is_tree ?h (Some 2) (Tree 2 [Tree 3 [Tree 4 []], Tree 5 []])"
    by (simp_all add: example_heap2_simps)
  from visitExprNode_child_order [OF t4, of "Some 3"]
  have l4: "trace ?h (Some 4) (Some 3) = Some [(Some 4, Some 3, True), (Some 4, Some 3, False)]"
    by (simp add: example_heap2_simps)
  from visitExprNode_child_order [OF t5, of "Some 2"]
  have l5: "trace ?h (Some 5) (Some 2) = Some [(Some 5, Some 2, True), (Some 5, Some 2, False)]"
    by (simp add: example_heap2_simps)
  from visitExprNode_child_order [OF t7, of "Some 6"]
  have l7: "trace ?h (Some 7) (Some 6) = Some [(Some 7, Some 6, True), (Some 7, Some 6, False)]"
    by (simp add: example_heap2_simps)
  from visitExprNode_child_order [OF t8, of "Some 6"]
  have l8: "trace ?h (Some 8) (Some 6) = Some [(Some 8, Some 6, True), (Some 8, Some 6, False)]"
    by (simp add: example_heap2_simps)
  from visitExprNode_child_order [OF t3, of "Some 2"]
  have "\<exists>tC tr. is_tree ?h (Some 4) tC \<and> trace ?h (Some 4) (Some 3) = Some tr
          \<and> node_of ` set tr = Some ` set (nodes tC)
          \<and> trace ?h (Some 3) (Some 2) = Some ((Some 3, Some 2, True) # tr @ [(Some 3, Some 2, False)])"
    by (simp only: example_heap2_simps node.case)
  then obtain tr
    where "trace ?h (Some 4) (Some 3) = Some tr"
      "trace ?h (Some 3) (Some 2) = Some ((Some 3, Some 2, True) # tr @ [(Some 3, Some 2, False)])"
    by (elim exE conjE)
  with l4 have l3: "trace ?h (Some 3) (Some 2) =
      Some [(Some 3, Some 2, True), (Some 4, Some 3, True), (Some 4, Some 3, False),
            (Some 3, Some 2, False)]"
    by simp
  from visitExprNode_child_order [OF t6, of "Some 0"]
  have "\<exists>tL tR trL trR. is_tree ?h (Some 7) tL \<and> is_tree ?h (Some 8) tR
          \<and> trace ?h (Some 7) (Some 6) = Some trL \<and> trace ?h (Some 8) (Some 6) = Some trR
          \<and> node_of ` set trL = Some ` set (nodes tL) \<and> node_of ` set trR = Some ` set (nodes tR)
          \<and> trace ?h (Some 6) (Some 0) =
              Some ((Some 6, Some 0, True) # trL @ trR @ [(Some 6, Some 0, False)])"
    by (simp only: example_heap2_simps node.case)
  then obtain trL trR
    where "trace ?h (Some 7) (Some 6) = Some trL" "trace ?h (Some 8) (Some 6) = Some trR"
      "trace ?h (Some 6) (Some 0) = Some ((Some 6, Some 0, True) # trL @ trR @ [(Some 6, Some 0, False)])"
    by (elim exE conjE)
  with l7 l8 have l6: "trace ?h (Some 6) (Some 0) =
       Some [(Some 6, Some 0, True), (Some 7, Some 6, True), (Some 7, Some 6, False),
             (Some 8, Some 6, True), (Some 8, Some 6, False), (Some 6, Some 0, False)]"
    by simp
  from visitExprNode_child_order [OF t2, of "Some 1"]
  have "\<exists>ts trs. list_all2 (is_tree ?h) [Some 3, Some 5] ts
          \<and> list_all2 (\<lambda>x tr. trace ?h x (Some 2) = Some tr) [Some 3, Some 5] trs
          \<and> list_all2 (\<lambda>t tr. node_of ` set tr = Some ` set (nodes t)) ts trs
          \<and> trace ?h (Some 2) (Some 1) = Some ((Some 2, Some 1, True) # concat trs @ [(Some 2, Some 1, False)])"
    by (simp only: example_heap2_simps node.case)
  then obtain trs
    where "list_all2 (\<lambda>x tr. trace ?h x (Some 2) = Some tr) [Some 3, Some 5] trs"
      "trace ?h (Some 2) (Some 1) = Some ((Some 2, Some 1, True) # concat trs @ [(Some 2, Some 1, False)])"
    by (elim exE conjE)
  then obtain tr3 tr5 where "trs = [tr3, tr5]" "trace ?h (Some 3) (Some 2) = Some tr3"
    "trace ?h (Some 5) (Some 2) = Some tr5"
    and "trace ?h (Some 2) (Some 1) = Some ((Some 2, Some 1, True) # concat trs @ [(Some 2, Some 1, False)])"
    by (auto simp: list_all2_Cons1)
  with l3 l5 have l2: "trace ?h (Some 2) (Some 1) =
       Some [(Some 2, Some 1, True), (Some 3, Some 2, True), (Some 4, Some 3, True),
             (Some 4, Some 3, False), (Some 3, Some 2, False), (Some 5, Some 2, True),
             (Some 5, Some 2, False), (Some 2, Some 1, False)]"
    by simp
  from t6 l6 t2 l2 show ?thesis by (intro conjI)
qed


text \<open>
  C6. On a tree in the heap, rooted at \<open>r\<close>: the root is entered and left with parent
  argument \<open>nil\<close>. Every other invocation is for a node \<open>a\<close> of the tree other than \<open>r\<close> and
  has as parent argument a node \<open>c\<close> of the tree with a child field that points to \<open>a\<close>,
  the only such node of the tree. The invocations for one node all have the same parent
  argument. The \<open>parent\<close> fields are not read: with any other values in them, the same
  invocations are made.
\<close>

theorem VisitExprNode_parent_argument:
  assumes "is_tree h (Some r) T" and "distinct (nodes T)"
  shows "\<exists>tr. VisitExprNode h (Some r) record_call [] = Some tr
    \<and> (Some r, None, True) \<in> set tr \<and> (Some r, None, False) \<in> set tr
    \<and> (\<forall>ev \<in> set tr. ev = (Some r, None, True) \<or> ev = (Some r, None, False) \<or>
          (\<exists>a c e. ev = (Some a, Some c, e) \<and> a \<noteq> r \<and> a \<in> set (nodes T) \<and> c \<in> set (nodes T)
              \<and> Some a \<in> set (children (h c))
              \<and> (\<forall>c' \<in> set (nodes T). Some a \<in> set (children (h c')) \<longrightarrow> c' = c)))
    \<and> (\<forall>a \<in> set (nodes T). \<exists>q. (Some a, q, True) \<in> set tr \<and> (Some a, q, False) \<in> set tr
          \<and> (\<forall>q' e. (Some a, q', e) \<in> set tr \<longrightarrow> q' = q))
    \<and> (\<forall>g. VisitExprNode (\<lambda>a. set_parent (g a) (h a)) (Some r) record_call [] = Some tr)"
proof (intro exI conjI)
  let ?tr = "events h None T"
  have root: "root_of T = r" using assms(1) by (rule is_tree_root)
  show "VisitExprNode h (Some r) record_call [] = Some ?tr"
    using assms(1) by (rule VisitExprNode_record)
  show "(Some r, None, True) \<in> set ?tr" "(Some r, None, False) \<in> set ?tr"
    using events_ends [of h None T] by (auto simp: root)
  have "VisitExprNode (\<lambda>a. set_parent (g a) (h a)) (Some r) record_call [] = Some ?tr" for g
    using VisitExprNode_record [of "\<lambda>a. set_parent (g a) (h a)" "Some r" T] assms(1)
    by (simp add: is_tree_set_parent events_set_parent)
  then show "\<forall>g. VisitExprNode (\<lambda>a. set_parent (g a) (h a)) (Some r) record_call [] = Some ?tr"
    by (rule allI)
  have "\<exists>q. (Some a, q, True) \<in> set ?tr \<and> (Some a, q, False) \<in> set ?tr
          \<and> (\<forall>q' e. (Some a, q', e) \<in> set ?tr \<longrightarrow> q' = q)" if "a \<in> set (nodes T)" for a
    using assms(2) that by (rule node_events_same_parent)
  then show "\<forall>a \<in> set (nodes T). \<exists>q. (Some a, q, True) \<in> set ?tr \<and> (Some a, q, False) \<in> set ?tr
          \<and> (\<forall>q' e. (Some a, q', e) \<in> set ?tr \<longrightarrow> q' = q)"
    by (rule ballI)
  show "\<forall>ev \<in> set ?tr. ev = (Some r, None, True) \<or> ev = (Some r, None, False) \<or>
          (\<exists>a c e. ev = (Some a, Some c, e) \<and> a \<noteq> r \<and> a \<in> set (nodes T) \<and> c \<in> set (nodes T)
              \<and> Some a \<in> set (children (h c))
              \<and> (\<forall>c' \<in> set (nodes T). Some a \<in> set (children (h c')) \<longrightarrow> c' = c))"
  proof
    fix ev assume ev: "ev \<in> set ?tr"
    show "ev = (Some r, None, True) \<or> ev = (Some r, None, False) \<or>
          (\<exists>a c e. ev = (Some a, Some c, e) \<and> a \<noteq> r \<and> a \<in> set (nodes T) \<and> c \<in> set (nodes T)
              \<and> Some a \<in> set (children (h c))
              \<and> (\<forall>c' \<in> set (nodes T). Some a \<in> set (children (h c')) \<longrightarrow> c' = c))"
  proof (cases "ev = (Some r, None, True) \<or> ev = (Some r, None, False)")
    case True
    then show ?thesis by blast
  next
    case False
    with event_forms [OF ev] obtain C t e
      where C: "C \<in> set (subtrees T)" and t: "t \<in> set (kids C)"
        and eveq: "ev = (Some (root_of t), Some (root_of C), e)"
      by (auto simp: root)
    define a c where "a = root_of t" and "c = root_of C"
    have sub: "t \<in> set (subtrees T)" using C t by (rule kids_subtrees)
    have a_in: "a \<in> set (nodes T)" and c_in: "c \<in> set (nodes T)"
      using sub C by (auto simp: set_nodes_subtrees a_def c_def)
    have neq: "a \<noteq> r"
      using kid_root_neq [OF assms(2) C t] by (simp add: root a_def)
    from assms(1) C have "is_tree h (Some (root_of C)) C" by (rule is_tree_subtree)
    then have "children (h c) = map (\<lambda>t. Some (root_of t)) (kids C)"
      using is_tree_kids [of h "Some (root_of C)" C] by (simp add: c_def)
    with t have child: "Some a \<in> set (children (h c))" by (auto simp: a_def)
    from node_events_same_parent [OF assms(2) a_in, of h None] obtain q
      where q: "\<And>q' e. (Some a, q', e) \<in> set ?tr \<Longrightarrow> q' = q"
      by blast
    have "Some c = q" using q [of "Some c" e] ev by (simp add: eveq a_def c_def)
    have uniq: "c' = c" if "c' \<in> set (nodes T)" "Some a \<in> set (children (h c'))" for c'
    proof -
      from assms(1) that have "(Some a, Some c', True) \<in> set ?tr" by (rule child_has_event)
      then have "Some c' = q" by (rule q)
      with \<open>Some c = q\<close> have "Some c' = Some c" by (rule ssubst)
      then show ?thesis by simp
    qed
    have "ev = (Some a, Some c, e)" by (simp add: eveq a_def c_def)
    with neq a_in c_in child uniq show ?thesis by blast
  qed
  qed
qed


theorem VisitExprNode_parent_argument_witness:
  "is_tree example_heap (Some 0) example_tree \<and> distinct (nodes example_tree)
   \<and> (\<exists>tr. VisitExprNode example_heap (Some 0) record_call [] = Some tr
        \<and> (Some 0, None, True) \<in> set tr \<and> (Some 0, None, False) \<in> set tr
        \<and> VisitExprNode (\<lambda>a. set_parent None (example_heap a)) (Some 0) record_call [] = Some tr)"
proof -
  from VisitExprNode_parent_argument [OF example_is_tree example_distinct]
  obtain tr where "VisitExprNode example_heap (Some 0) record_call [] = Some tr"
    "(Some 0, None, True) \<in> set tr" "(Some 0, None, False) \<in> set tr"
    "\<forall>g. VisitExprNode (\<lambda>a. set_parent (g a) (example_heap a)) (Some 0) record_call [] = Some tr"
    by (elim exE conjE)
  moreover from this(4)
  have "VisitExprNode (\<lambda>a. set_parent None (example_heap a)) (Some 0) record_call [] = Some tr"
    by (rule spec [of _ "\<lambda>a. None"])
  ultimately show ?thesis
    using example_is_tree example_distinct by (intro conjI exI [of _ tr])
qed

text \<open>
  C7. On a tree in the heap, \<open>VisitExprNode\<close> returns whatever the callback is. The nodes
  entered are the nodes of the tree, each once, and so are the nodes left. The nodes of
  the tree are the root and, with every node, all that its child fields point to: none
  that can be reached is left out.
\<close>

theorem VisitExprNode_terminates_each_node_once:
  assumes "is_tree h (Some r) T" and "distinct (nodes T)"
  shows "(\<exists>s'. VisitExprNode h (Some r) f s = Some s')
    \<and> (\<exists>tr. VisitExprNode h (Some r) record_call [] = Some tr
          \<and> distinct (entered tr) \<and> set (entered tr) = Some ` set (nodes T)
          \<and> distinct (exited tr) \<and> set (exited tr) = Some ` set (nodes T))
    \<and> r \<in> set (nodes T)
    \<and> (\<forall>a \<in> set (nodes T). set (children (h a)) \<subseteq> Some ` set (nodes T))"
proof (intro conjI ballI)
  show "\<exists>s'. VisitExprNode h (Some r) f s = Some s'"
    using assms(1) by (simp add: VisitExprNode_events)
  have d: "distinct (map Some (nodes T))"
    using assms(2) by (simp add: distinct_map)
  have "distinct (entered (events h None T))"
    using d mset_eq_imp_distinct_iff [OF mset_entered_events [of h None T]] by simp
  moreover have "set (entered (events h None T)) = Some ` set (nodes T)"
    using mset_eq_setD [OF mset_entered_events [of h None T]] by simp
  moreover have "distinct (exited (events h None T))"
    using d mset_eq_imp_distinct_iff [OF mset_exited_events [of h None T]] by simp
  moreover have "set (exited (events h None T)) = Some ` set (nodes T)"
    using mset_eq_setD [OF mset_exited_events [of h None T]] by simp
  ultimately show "\<exists>tr. VisitExprNode h (Some r) record_call [] = Some tr
          \<and> distinct (entered tr) \<and> set (entered tr) = Some ` set (nodes T)
          \<and> distinct (exited tr) \<and> set (exited tr) = Some ` set (nodes T)"
    using VisitExprNode_record [OF assms(1)] by (intro exI conjI)
  show "r \<in> set (nodes T)"
    using is_tree_root [OF assms(1)] by (cases T) simp
next
  fix a assume "a \<in> set (nodes T)"
  with assms(1) show "set (children (h a)) \<subseteq> Some ` set (nodes T)"
    by (rule children_closed)
qed

theorem VisitExprNode_terminates_each_node_once_witness:
  "is_tree example_heap (Some 0) example_tree \<and> distinct (nodes example_tree)
   \<and> (\<exists>s'. VisitExprNode example_heap (Some 0) (\<lambda>n p e k. Suc k) (0::nat) = Some s')
   \<and> (\<exists>tr. VisitExprNode example_heap (Some 0) record_call [] = Some tr
          \<and> distinct (entered tr) \<and> set (entered tr) = {Some 0, Some 1, Some 2, Some 3, Some 4}
          \<and> distinct (exited tr) \<and> set (exited tr) = {Some 0, Some 1, Some 2, Some 3, Some 4})"
proof -
  have n: "Some ` set (nodes example_tree) = {Some 0, Some 1, Some 2, Some 3, Some 4}"
    by (simp add: example_tree_def)
  from VisitExprNode_terminates_each_node_once [OF example_is_tree example_distinct,
      of "\<lambda>n p e k. Suc k" "0::nat"]
  show ?thesis
    unfolding n using example_is_tree example_distinct by (intro conjI) (elim conjE, assumption)+
qed


section \<open>Positions and ancestors\<close>

text \<open>
  C3. For a node \<open>a\<close> whose \<open>Parent()\<close> links pass the nodes \<open>as\<close> and then reach \<open>nil\<close>
  (\<open>a\<close> is not among them), and a predicate that records the nodes it is applied to:
  if no node of \<open>as\<close> matches, \<open>FindParent\<close> returns the zero value and \<open>false\<close>, having applied
  the predicate to all of \<open>as\<close>, in this order; if \<open>m\<close> is the first node of \<open>as\<close> that matches,
  it returns the predicate's value at \<open>m\<close> and \<open>true\<close>, having applied the predicate to the nodes
  before \<open>m\<close> and to \<open>m\<close>, and to nothing after it. With no parent, the result is the zero
  value and \<open>false\<close>, and the predicate is not applied at all.
\<close>

theorem FindParent_nearest_ancestor:
  assumes "parent_chain h (Parent (h a)) as"
  shows "a \<notin> set as
    \<and> ((\<forall>x \<in> set as. \<not> snd (pred (Some x))) \<longrightarrow>
          FindParent h (Some a) (logged pred) zero [] = Some (Inr ((zero, False), map Some as)))
    \<and> (\<forall>pre m post. as = pre @ m # post \<and> (\<forall>x \<in> set pre. \<not> snd (pred (Some x)))
            \<and> snd (pred (Some m)) \<longrightarrow>
          FindParent h (Some a) (logged pred) zero [] =
            Some (Inr ((fst (pred (Some m)), True), map Some (pre @ [m]))))
    \<and> (Parent (h a) = None \<longrightarrow>
          as = [] \<and> FindParent h (Some a) (logged pred) zero [] = Some (Inr ((zero, False), [])))"
proof (intro conjI allI impI)
  show "a \<notin> set as" using assms by (rule parent_chain_acyclic)
next
  assume "\<forall>x \<in> set as. \<not> snd (pred (Some x))"
  with assms show "FindParent h (Some a) (logged pred) zero [] = Some (Inr ((zero, False), map Some as))"
    by (simp add: FindParent_def FindParent_loop_no_match)
next
  fix pre m post
  assume "as = pre @ m # post \<and> (\<forall>x \<in> set pre. \<not> snd (pred (Some x))) \<and> snd (pred (Some m))"
  with assms show "FindParent h (Some a) (logged pred) zero [] =
            Some (Inr ((fst (pred (Some m)), True), map Some (pre @ [m])))"
    by (simp add: FindParent_def FindParent_loop_match [where post = post])
next
  assume none: "Parent (h a) = None"
  with assms show "as = []" by (cases as) simp_all
  then have "\<forall>x \<in> set as. \<not> snd (pred (Some x))" by simp
  with assms show "FindParent h (Some a) (logged pred) zero [] = Some (Inr ((zero, False), []))"
    using \<open>as = []\<close> by (simp add: FindParent_def FindParent_loop_no_match [where as = "[]"])
qed


theorem FindParent_nearest_ancestor_witness:
  "parent_chain example_heap (Parent (example_heap 4)) [3, 0]
   \<and> parent_chain example_heap (Parent (example_heap 0)) []
   \<and> FindParent example_heap (Some 4) (logged (\<lambda>n. (n, n = Some 0))) None [] =
       Some (Inr ((Some 0, True), [Some 3, Some 0]))
   \<and> FindParent example_heap (Some 4) (logged (\<lambda>n. (n, True))) None [] =
       Some (Inr ((Some 3, True), [Some 3]))
   \<and> FindParent example_heap (Some 4) (logged (\<lambda>n. (n, False))) None [] =
       Some (Inr ((None, False), [Some 3, Some 0]))
   \<and> FindParent example_heap (Some 0) (logged (\<lambda>n. (n, True))) None [] =
       Some (Inr ((None, False), []))"
proof -
  let ?h = example_heap
  have c4: "parent_chain ?h (Parent (?h 4)) [3, 0]"
    and c0: "parent_chain ?h (Parent (?h 0)) []"
    by (simp_all add: example_heap_simps)
  note far = FindParent_nearest_ancestor [OF c4, of "\<lambda>n. (n, n = Some 0)" None,
      THEN conjunct2, THEN conjunct2, THEN conjunct1, rule_format, of "[3]" 0 "[]"]
  note near = FindParent_nearest_ancestor [OF c4, of "\<lambda>n. (n, True)" None,
      THEN conjunct2, THEN conjunct2, THEN conjunct1, rule_format, of "[]" 3 "[0]"]
  note none = FindParent_nearest_ancestor [OF c4, of "\<lambda>n. (n, False)" None,
      THEN conjunct2, THEN conjunct1, rule_format]
  note root = FindParent_nearest_ancestor [OF c0, of "\<lambda>n. (n, True)" None,
      THEN conjunct2, THEN conjunct2, THEN conjunct2, rule_format]
  have 1: "FindParent ?h (Some 4) (logged (\<lambda>n. (n, n = Some 0))) None [] =
       Some (Inr ((Some 0, True), [Some 3, Some 0]))"
    using far by simp
  have 2: "FindParent ?h (Some 4) (logged (\<lambda>n. (n, True))) None [] =
       Some (Inr ((Some 3, True), [Some 3]))"
    using near by simp
  have 3: "FindParent ?h (Some 4) (logged (\<lambda>n. (n, False))) None [] =
       Some (Inr ((None, False), [Some 3, Some 0]))"
    using none by simp
  have 4: "FindParent ?h (Some 0) (logged (\<lambda>n. (n, True))) None [] =
       Some (Inr ((None, False), []))"
    using root by (simp add: example_heap_simps)
  from c4 c0 1 2 3 4 show ?thesis by (intro conjI)
qed


text \<open>
  C4. \<open>Token()\<close> of an \<open>ObjectDerefNode\<close> or \<open>ArrayDerefNode\<close> is \<open>Token()\<close> of its receiver, of
  an \<open>IndexAccessNode\<close> that of its operand, of a \<open>CompareOpNode\<close> or \<open>LogicalOpNode\<close> that
  of its left side; the eight other structs return the token they hold. At a node \<open>a\<close> of
  a tree, \<open>Token()\<close> returns: there is a path from \<open>a\<close>, inside the tree, along which each
  node hands over to the next, and at its last node the token returned is that node's
  own.
\<close>

theorem Token_delegates_to_own_token:
  "(case h a of
      ObjectDerefNode receiver property parent \<Rightarrow> Token h (Some a) = Token h receiver
    | ArrayDerefNode receiver parent \<Rightarrow> Token h (Some a) = Token h receiver
    | IndexAccessNode operand index parent \<Rightarrow> Token h (Some a) = Token h operand
    | CompareOpNode kind left right parent \<Rightarrow> Token h (Some a) = Token h left
    | LogicalOpNode kind left right parent \<Rightarrow> Token h (Some a) = Token h left
    | VariableNode name tok parent \<Rightarrow> Token h (Some a) = Some (Inr tok)
    | NullNode tok parent \<Rightarrow> Token h (Some a) = Some (Inr tok)
    | BoolNode v tok parent \<Rightarrow> Token h (Some a) = Some (Inr tok)
    | IntNode v tok parent \<Rightarrow> Token h (Some a) = Some (Inr tok)
    | FloatNode v tok parent \<Rightarrow> Token h (Some a) = Some (Inr tok)
    | StringNode v tok parent \<Rightarrow> Token h (Some a) = Some (Inr tok)
    | NotOpNode operand tok parent \<Rightarrow> Token h (Some a) = Some (Inr tok)
    | FuncCallNode callee args tok parent \<Rightarrow> Token h (Some a) = Some (Inr tok))
   \<and> (is_tree h (Some a) T \<longrightarrow>
        (\<exists>path tok. path \<noteq> [] \<and> hd path = a \<and> set path \<subseteq> set (nodes T) \<and> delegation h path
          \<and> own_token (h (last path)) = Some tok \<and> Token h (Some a) = Some (Inr tok)))"
proof (intro conjI impI)
  show "case h a of
      ObjectDerefNode receiver property parent \<Rightarrow> Token h (Some a) = Token h receiver
    | ArrayDerefNode receiver parent \<Rightarrow> Token h (Some a) = Token h receiver
    | IndexAccessNode operand index parent \<Rightarrow> Token h (Some a) = Token h operand
    | CompareOpNode kind left right parent \<Rightarrow> Token h (Some a) = Token h left
    | LogicalOpNode kind left right parent \<Rightarrow> Token h (Some a) = Token h left
    | VariableNode name tok parent \<Rightarrow> Token h (Some a) = Some (Inr tok)
    | NullNode tok parent \<Rightarrow> Token h (Some a) = Some (Inr tok)
    | BoolNode v tok parent \<Rightarrow> Token h (Some a) = Some (Inr tok)
    | IntNode v tok parent \<Rightarrow> Token h (Some a) = Some (Inr tok)
    | FloatNode v tok parent \<Rightarrow> Token h (Some a) = Some (Inr tok)
    | StringNode v tok parent \<Rightarrow> Token h (Some a) = Some (Inr tok)
    | NotOpNode operand tok parent \<Rightarrow> Token h (Some a) = Some (Inr tok)
    | FuncCallNode callee args tok parent \<Rightarrow> Token h (Some a) = Some (Inr tok)"
    by (cases "h a") (simp_all add: Token_delegate Token_own)
next
  assume "is_tree h (Some a) T"
  then show "\<exists>path tok. path \<noteq> [] \<and> hd path = a \<and> set path \<subseteq> set (nodes T) \<and> delegation h path
          \<and> own_token (h (last path)) = Some tok \<and> Token h (Some a) = Some (Inr tok)"
    by (rule Token_terminates)
qed

theorem Token_delegates_to_own_token_witness:
  "is_tree example_heap (Some 0) example_tree
   \<and> Token example_heap (Some 0) = Token example_heap (Some 1)
   \<and> Token example_heap (Some 1) = Token example_heap (Some 2)
   \<and> Token example_heap (Some 2) = Some (Inr ''foo'')
   \<and> (\<exists>path tok. path \<noteq> [] \<and> hd path = 0 \<and> delegation example_heap path
        \<and> own_token (example_heap (last path)) = Some tok
        \<and> Token example_heap (Some 0) = Some (Inr tok))"
proof -
  let ?h = example_heap
  from Token_delegates_to_own_token [of ?h 0 example_tree, THEN conjunct1]
  have 0: "Token ?h (Some 0) = Token ?h (Some 1)"
    by (simp only: example_heap_simps node.case)
  from Token_delegates_to_own_token [of ?h 0 example_tree, THEN conjunct2] example_is_tree
  have ex: "\<exists>path tok. path \<noteq> [] \<and> hd path = 0 \<and> set path \<subseteq> set (nodes example_tree)
          \<and> delegation ?h path \<and> own_token (?h (last path)) = Some tok
          \<and> Token ?h (Some 0) = Some (Inr tok)"
    by (rule mp)
  from Token_delegates_to_own_token [of ?h 1 example_tree, THEN conjunct1]
  have 1: "Token ?h (Some 1) = Token ?h (Some 2)"
    by (simp only: example_heap_simps node.case)
  from Token_delegates_to_own_token [of ?h 2 example_tree, THEN conjunct1]
  have 2: "Token ?h (Some 2) = Some (Inr ''foo'')"
    by (simp only: example_heap_simps node.case)
  from ex have "\<exists>path tok. path \<noteq> [] \<and> hd path = 0 \<and> delegation ?h path
        \<and> own_token (?h (last path)) = Some tok \<and> Token ?h (Some 0) = Some (Inr tok)"
    by (elim exE conjE) (intro exI conjI)
  with example_is_tree 0 1 2 show ?thesis by (intro conjI)
qed


section \<open>Operator kinds: rendering and the equality test\<close>

text \<open>
  C8. \<open>IsEqualityOp\<close> is true exactly for the kinds of \<open>==\<close> and \<open>!=\<close>, which are exactly the
  kinds rendered as these two symbols; it is false for every other integer, and for the
  kind of \<open><\<close> in particular.
\<close>

theorem IsEqualityOp_iff:
  "(IsEqualityOp kind \<longleftrightarrow> kind = CompareOpNodeKindEq \<or> kind = CompareOpNodeKindNotEq)
   \<and> (IsEqualityOp kind \<longleftrightarrow> CompareOpNodeKind_String kind \<in> {''=='', ''!=''})
   \<and> IsEqualityOp CompareOpNodeKindEq
   \<and> IsEqualityOp CompareOpNodeKindNotEq
   \<and> \<not> IsEqualityOp CompareOpNodeKindLess
   \<and> \<not> IsEqualityOp CompareOpNodeKindLessEq
   \<and> \<not> IsEqualityOp CompareOpNodeKindGreater
   \<and> \<not> IsEqualityOp CompareOpNodeKindGreaterEq
   \<and> \<not> IsEqualityOp CompareOpNodeKindInvalid"
  by (simp add: IsEqualityOp_def CompareOpNodeKind_String_def CompareOpNodeKind_defs)

theorem IsEqualityOp_iff_witness:
  "IsEqualityOp 5 \<and> IsEqualityOp 6 \<and> \<not> IsEqualityOp 1 \<and> \<not> IsEqualityOp 7 \<and> \<not> IsEqualityOp (- 1)"
  using IsEqualityOp_iff [of 5] IsEqualityOp_iff [of 6] IsEqualityOp_iff [of 1]
    IsEqualityOp_iff [of 7] IsEqualityOp_iff [of "- 1"]
  by (simp add: CompareOpNodeKind_defs)

text \<open>
  C9. Each of the six comparison kinds and the two logical kinds is rendered as its
  operator symbol.
\<close>

theorem String_valid_kinds:
  "CompareOpNodeKind_String CompareOpNodeKindLess = ''<''
   \<and> CompareOpNodeKind_String CompareOpNodeKindLessEq = ''<=''
   \<and> CompareOpNodeKind_String CompareOpNodeKindGreater = ''>''
   \<and> CompareOpNodeKind_String CompareOpNodeKindGreaterEq = ''>=''
   \<and> CompareOpNodeKind_String CompareOpNodeKindEq = ''==''
   \<and> CompareOpNodeKind_String CompareOpNodeKindNotEq = ''!=''
   \<and> LogicalOpNodeKind_String LogicalOpNodeKindAnd = ''&&''
   \<and> LogicalOpNodeKind_String LogicalOpNodeKindOr = ''||''"
  by (simp add: CompareOpNodeKind_String_def LogicalOpNodeKind_String_def
      CompareOpNodeKind_defs LogicalOpNodeKind_defs)

text \<open>
  C10. Both renderings are total over the integers. A comparison kind that is none of the
  six valid ones (the invalid kind among them) is rendered as the empty string, a logical
  kind that is none of the two valid ones as \<open>INVALID LOGICAL OPERATOR\<close>; so the two
  renderings of an invalid kind differ.
\<close>

theorem String_invalid_kinds:
  "(kind \<notin> {CompareOpNodeKindLess, CompareOpNodeKindLessEq, CompareOpNodeKindGreater,
        CompareOpNodeKindGreaterEq, CompareOpNodeKindEq, CompareOpNodeKindNotEq}
      \<longrightarrow> CompareOpNodeKind_String kind = '''')
   \<and> (k \<notin> {LogicalOpNodeKindAnd, LogicalOpNodeKindOr}
      \<longrightarrow> LogicalOpNodeKind_String k = ''INVALID LOGICAL OPERATOR'')
   \<and> CompareOpNodeKind_String CompareOpNodeKindInvalid = ''''
   \<and> LogicalOpNodeKind_String LogicalOpNodeKindInvalid = ''INVALID LOGICAL OPERATOR''
   \<and> CompareOpNodeKind_String CompareOpNodeKindInvalid
       \<noteq> LogicalOpNodeKind_String LogicalOpNodeKindInvalid"
  by (simp add: CompareOpNodeKind_String_def LogicalOpNodeKind_String_def
      CompareOpNodeKind_defs LogicalOpNodeKind_defs)

theorem String_invalid_kinds_witness:
  "(7::int) \<notin> {CompareOpNodeKindLess, CompareOpNodeKindLessEq, CompareOpNodeKindGreater,
        CompareOpNodeKindGreaterEq, CompareOpNodeKindEq, CompareOpNodeKindNotEq}
   \<and> CompareOpNodeKind_String 7 = ''''
   \<and> (- 1::int) \<notin> {LogicalOpNodeKindAnd, LogicalOpNodeKindOr}
   \<and> LogicalOpNodeKind_String (- 1) = ''INVALID LOGICAL OPERATOR''"
  using String_invalid_kinds [of 7 "- 1"]
  by (simp add: CompareOpNodeKind_defs LogicalOpNodeKind_defs)

end
